theory Spec2Isabelle
  imports Main "HOL-Library.Sublist" "HOL-Library.Multiset"
begin

section \<open>Python strings and the library calls the tool makes\<close>

text \<open>
  The tool is \<^verbatim>\<open>eventNames/cleanup.py\<close>. Its values are Python \<^verbatim>\<open>str\<close>, unbounded
  \<^verbatim>\<open>int\<close>, lists of pairs and one \<^verbatim>\<open>dict\<close>. A \<^verbatim>\<open>str\<close> is modelled as a
  \<^typ>\<open>string\<close> whose characters are the code points 0 to 255; the character classes
  below are Python's classes restricted to that range. A raised \<^verbatim>\<open>ValueError\<close> is the
  left injection of a sum; the constructor records which \<^verbatim>\<open>raise\<close> produced it.
\<close>

datatype error =
    CannotParse string      \<comment> \<open>\<^verbatim>\<open>ValueError(f"Cannot parse C value: {value_str}")\<close>\<close>
  | InvalidLiteral string   \<comment> \<open>the \<^verbatim>\<open>ValueError\<close> of the builtin \<^verbatim>\<open>int\<close>, for a string that is no
                                literal and for one that has too many digits\<close>
  | Unsupported string      \<comment> \<open>\<^verbatim>\<open>ValueError(f"Unsupported expression: {expr}")\<close>\<close>
  | Undefined string        \<comment> \<open>\<^verbatim>\<open>ValueError(f"Undefined symbol: {operand}")\<close>\<close>

definition LF :: char where
  "LF = CHR 0x0A"

definition CR :: char where
  "CR = CHR 0x0D"

text \<open>
  \<^verbatim>\<open>str.isspace\<close> on one character; \<^verbatim>\<open>str.strip()\<close>, \<^verbatim>\<open>str.split(None, n)\<close> and the
  pattern \<^verbatim>\<open>\s\<close> of a \<^verbatim>\<open>str\<close> regular expression all use this class.
\<close>

definition isspace :: "char \<Rightarrow> bool" where
  "isspace c \<longleftrightarrow> c \<in> set [CHR 0x09, CHR 0x0A, CHR 0x0B, CHR 0x0C, CHR 0x0D,
      CHR 0x1C, CHR 0x1D, CHR 0x1E, CHR 0x1F, CHR 0x20, CHR 0x85, CHR 0xA0]"

text \<open>The pattern \<^verbatim>\<open>\d\<close>: below code point 256 only the ASCII digits are decimal digits.\<close>

definition re_digit :: "char \<Rightarrow> bool" where
  "re_digit c \<longleftrightarrow> c \<in> set ''0123456789''"

text \<open>\<^verbatim>\<open>str.isdigit\<close> on one character also accepts the superscripts two, three and one.\<close>

definition isdigit_char :: "char \<Rightarrow> bool" where
  "isdigit_char c \<longleftrightarrow> re_digit c \<or> c \<in> set [CHR 0xB2, CHR 0xB3, CHR 0xB9]"

text \<open>The character class \<^verbatim>\<open>[0-9a-fA-F]\<close>.\<close>

definition re_hex :: "char \<Rightarrow> bool" where
  "re_hex c \<longleftrightarrow> c \<in> set ''0123456789abcdefABCDEF''"

text \<open>The character class \<^verbatim>\<open>[^+\-]\<close>.\<close>

definition not_pm :: "char \<Rightarrow> bool" where
  "not_pm c \<longleftrightarrow> c \<noteq> CHR ''+'' \<and> c \<noteq> CHR ''-''"

definition strip :: "string \<Rightarrow> string" where
  "strip s = rev (dropWhile isspace (rev (dropWhile isspace s)))"

text \<open>
  \<^verbatim>\<open>s.split(None, maxsplit)\<close>: up to \<open>maxsplit\<close> times, skip white space and cut a token
  at the next white space; what is left after the last cut, minus its leading white
  space, is one more part if it is not empty (its trailing white space is kept).
\<close>

fun split_ws :: "nat \<Rightarrow> string \<Rightarrow> string list" where
  "split_ws 0 s = (let r = dropWhile isspace s in if r = [] then [] else [r])"
| "split_ws (Suc n) s =
     (let r = dropWhile isspace s in
      if r = [] then []
      else takeWhile (\<lambda>c. \<not> isspace c) r # split_ws n (dropWhile (\<lambda>c. \<not> isspace c) r))"

text \<open>The value of one digit character in base 10 or 16; \<open>None\<close> for any other character.\<close>

definition digit_value :: "char \<Rightarrow> nat option" where
  "digit_value c =
     (if re_digit c then Some (of_char c - 48)
      else if c \<in> set ''abcdef'' then Some (of_char c - 87)
      else if c \<in> set ''ABCDEF'' then Some (of_char c - 55)
      else None)"

text \<open>
  The digit part of an \<^verbatim>\<open>int\<close> literal in the given base: digits, with single
  underscores allowed in front of a digit. The accumulator is the value read so far.
\<close>

fun int_digits :: "nat \<Rightarrow> int \<Rightarrow> string \<Rightarrow> int option" where
  "int_digits b acc [] = Some acc"
| "int_digits b acc [c] =
     (case digit_value c of
        None \<Rightarrow> None
      | Some v \<Rightarrow> if v < b then Some (acc * int b + int v) else None)"
| "int_digits b acc (c # d # cs) =
     (if c = CHR ''_'' then
        (case digit_value d of
           None \<Rightarrow> None
         | Some v \<Rightarrow> if v < b then int_digits b (acc * int b + int v) cs else None)
      else
        (case digit_value c of
           None \<Rightarrow> None
         | Some v \<Rightarrow> if v < b then int_digits b (acc * int b + int v) (d # cs) else None))"

text \<open>
  The white space that the builtin \<^verbatim>\<open>int\<close> drops around a literal: the class of
  \<^verbatim>\<open>str.isspace\<close> without the four separators 0x1C to 0x1F.
\<close>

definition int_isspace :: "char \<Rightarrow> bool" where
  "int_isspace c \<longleftrightarrow> c \<in> set [CHR 0x09, CHR 0x0A, CHR 0x0B, CHR 0x0C, CHR 0x0D,
      CHR 0x20, CHR 0x85, CHR 0xA0]"

definition int_strip :: "string \<Rightarrow> string" where
  "int_strip s = rev (dropWhile int_isspace (rev (dropWhile int_isspace s)))"

text \<open>
  The builtin \<^verbatim>\<open>int(s, base)\<close> for base 10 and 16 on a \<^verbatim>\<open>str\<close>: surrounding white
  space is dropped, one sign is allowed, in base 16 a prefix \<^verbatim>\<open>0x\<close> or \<^verbatim>\<open>0X\<close> is
  allowed and may be followed by one underscore, then come the digits. In base 10 the
  interpreter refuses, with a \<^verbatim>\<open>ValueError\<close> again, a literal of more digits than
  \<^verbatim>\<open>sys.get_int_max_str_digits()\<close>, which is 4300 unless the interpreter is configured
  otherwise; the underscores, the sign and the white space are not counted, and base 16
  has no limit.
\<close>

definition int_max_str_digits :: nat where
  "int_max_str_digits = 4300"

definition int_unsigned :: "nat \<Rightarrow> string \<Rightarrow> int option" where
  "int_unsigned b s =
     (if b = 16 \<and> (prefix ''0x'' s \<or> prefix ''0X'' s) then
        (let r = drop 2 s in
         if r = [] \<or> r = ''_'' then None else int_digits b 0 r)
      else if s = [] \<or> hd s = CHR ''_'' then None
      else if b = 10 \<and> int_max_str_digits < length (filter (\<lambda>c. c \<noteq> CHR ''_'') s) then None
      else int_digits b 0 s)"

definition py_int :: "string \<Rightarrow> nat \<Rightarrow> error + int" where
  "py_int s0 b =
     (let s = int_strip s0;
          r = (case s of
                 [] \<Rightarrow> None
               | c # cs \<Rightarrow>
                   if c = CHR ''-'' then map_option uminus (int_unsigned b cs)
                   else if c = CHR ''+'' then int_unsigned b cs
                   else int_unsigned b s)
      in case r of None \<Rightarrow> Inl (InvalidLiteral s0) | Some v \<Rightarrow> Inr v)"

text \<open>
  \<^verbatim>\<open>re.sub(r'\s+', ' ', s)\<close>: every maximal run of white space becomes one space.
\<close>

function re_sub_ws :: "string \<Rightarrow> string" where
  "re_sub_ws [] = []"
| "re_sub_ws (c # cs) =
     (if isspace c then CHR '' '' # re_sub_ws (dropWhile isspace cs)
      else c # re_sub_ws cs)"
  by pat_completeness auto
termination
  by (relation "measure length") (auto simp: less_Suc_eq_le length_dropWhile_le)

text \<open>
  The anchor \<^verbatim>\<open>$\<close> (without \<^verbatim>\<open>re.MULTILINE\<close>) holds at the end of the string and
  also just before a line feed that is the last character. A pattern \<^verbatim>\<open>^R$\<close> given to
  \<^verbatim>\<open>re.match\<close> therefore accepts \<open>s\<close> when \<open>R\<close> spans all of \<open>s\<close>, or all of \<open>s\<close> but a
  final line feed.
\<close>

definition chop_lf :: "string \<Rightarrow> string option" where
  "chop_lf s = (if s \<noteq> [] \<and> last s = LF then Some (butlast s) else None)"

text \<open>The body \<^verbatim>\<open>(0x[0-9a-fA-F]+|\d+)\<close> spanning a whole string.\<close>

definition number_body :: "string \<Rightarrow> bool" where
  "number_body s \<longleftrightarrow>
     (prefix ''0x'' s \<and> drop 2 s \<noteq> [] \<and> list_all re_hex (drop 2 s))
     \<or> (s \<noteq> [] \<and> list_all re_digit s)"

text \<open>\<^verbatim>\<open>re.match(r'^(0x[0-9a-fA-F]+|\d+)$', s)\<close> as a truth value.\<close>

definition re_match_number :: "string \<Rightarrow> bool" where
  "re_match_number s \<longleftrightarrow>
     number_body s \<or> (case chop_lf s of None \<Rightarrow> False | Some t \<Rightarrow> number_body t)"

text \<open>
  What the lazy group \<^verbatim>\<open>([^+\-]+?)\<close> captures from a stretch \<open>a\<close> of characters other
  than plus and minus that the pattern \<^verbatim>\<open>\s*([^+\-]+?)\s*\<close> has to span: the greedy
  \<^verbatim>\<open>\s*\<close> in front takes the leading white space, the group then grows only until the
  rest of \<open>a\<close> is white space. If \<open>a\<close> is white space only, the group needs one character
  and the leading \<^verbatim>\<open>\s*\<close> gives back the last one.
\<close>

definition lazy_group :: "string \<Rightarrow> string" where
  "lazy_group a = (if strip a = [] then [last a] else strip a)"

text \<open>
  The body \<^verbatim>\<open>\(\s*([^+\-]+?)\s*OP\s*([^+\-]+?)\s*\)\<close> spanning a whole string, for the
  operator character \<open>OP\<close>; the result is \<^verbatim>\<open>(m.group(1), m.group(2))\<close>. White space is
  not plus or minus, so everything between the opening parenthesis and the operator is
  free of plus and minus: the operator is the first plus or minus of the string. The same
  holds between the operator and the closing parenthesis, which is the last character.
\<close>

definition binary_body :: "char \<Rightarrow> string \<Rightarrow> (string \<times> string) option" where
  "binary_body opr s =
     (case s of
        [] \<Rightarrow> None
      | c # r \<Rightarrow>
          if c \<noteq> CHR ''('' then None
          else
            (let a = takeWhile not_pm r in
             case dropWhile not_pm r of
               [] \<Rightarrow> None
             | x # t \<Rightarrow>
                 if x \<noteq> opr \<or> a = [] \<or> t = [] \<or> last t \<noteq> CHR '')'' then None
                 else
                   (let b = butlast t in
                    if b = [] \<or> \<not> list_all not_pm b then None
                    else Some (lazy_group a, lazy_group b))))"

text \<open>
  \<^verbatim>\<open>re.match(r'^\(\s*([^+\-]+?)\s*\+\s*([^+\-]+?)\s*\)$', s)\<close> for \<open>opr\<close> the plus
  sign, and the pattern of line 36 for the minus sign: \<open>None\<close> when there is no match,
  the two groups otherwise.
\<close>

definition re_match_binary :: "char \<Rightarrow> string \<Rightarrow> (string \<times> string) option" where
  "re_match_binary opr s =
     (case binary_body opr s of
        Some g \<Rightarrow> Some g
      | None \<Rightarrow> (case chop_lf s of None \<Rightarrow> None | Some t \<Rightarrow> binary_body opr t))"

section \<open>The evaluator\<close>

definition parse_c_value :: "string \<Rightarrow> error + int" where
  "parse_c_value value_str0 =
     (let value_str = strip value_str0 in
      if prefix ''0x'' value_str \<or> prefix ''0X'' value_str then py_int value_str 16
      else if value_str \<noteq> [] \<and> list_all isdigit_char value_str then py_int value_str 10
      else Inl (CannotParse value_str))"

definition evaluate_operand :: "string \<Rightarrow> (string \<rightharpoonup> int) \<Rightarrow> error + int" where
  "evaluate_operand operand0 symbols =
     (let operand = strip operand0 in
      if re_match_number operand then parse_c_value operand
      else
        (case symbols operand of
           Some v \<Rightarrow> Inr v
         | None \<Rightarrow> Inl (Undefined operand)))"

text \<open>
  The two operand evaluations of a parenthesised expression, left one first; the first
  \<^verbatim>\<open>ValueError\<close> raised is the one that leaves \<^verbatim>\<open>evaluate\<close>.
\<close>

definition combine :: "(int \<Rightarrow> int \<Rightarrow> int) \<Rightarrow> error + int \<Rightarrow> error + int \<Rightarrow> error + int" where
  "combine f l r =
     (case l of
        Inl e \<Rightarrow> Inl e
      | Inr left_val \<Rightarrow> (case r of Inl e \<Rightarrow> Inl e | Inr right_val \<Rightarrow> Inr (f left_val right_val)))"

definition evaluate :: "string \<Rightarrow> (string \<rightharpoonup> int) \<Rightarrow> error + int" where
  "evaluate expr0 symbols =
     (let expr = re_sub_ws (strip expr0) in
      if re_match_number expr then parse_c_value expr
      else
        (case symbols expr of
           Some v \<Rightarrow> Inr v
         | None \<Rightarrow>
             (case re_match_binary (CHR ''+'') expr of
                Some (g1, g2) \<Rightarrow>
                  combine (+) (evaluate_operand (strip g1) symbols)
                              (evaluate_operand (strip g2) symbols)
              | None \<Rightarrow>
                  (case re_match_binary (CHR ''-'') expr of
                     Some (g1, g2) \<Rightarrow>
                       combine (-) (evaluate_operand (strip g1) symbols)
                                   (evaluate_operand (strip g2) symbols)
                   | None \<Rightarrow> Inl (Unsupported expr)))))"

section \<open>The extractor\<close>

type_synonym define_record = "string \<times> string"

text \<open>
  The file is opened in text mode with the default \<^verbatim>\<open>newline=None\<close>: a carriage
  return, alone or followed by a line feed, reaches the program as one line feed.
\<close>

fun universal_newlines :: "string \<Rightarrow> string" where
  "universal_newlines [] = []"
| "universal_newlines [c] = (if c = CR then [LF] else [c])"
| "universal_newlines (c # d # cs) =
     (if c = CR then
        (if d = LF then LF # universal_newlines cs else LF # universal_newlines (d # cs))
      else c # universal_newlines (d # cs))"

text \<open>
  Iterating over the file object gives the lines of the text, each with its line feed; a
  last line without line feed comes as it is.
\<close>

function file_lines :: "string \<Rightarrow> string list" where
  "file_lines s =
     (if s = [] then []
      else
        (case dropWhile (\<lambda>c. c \<noteq> LF) s of
           [] \<Rightarrow> [s]
         | _ # r \<Rightarrow> (takeWhile (\<lambda>c. c \<noteq> LF) s @ [LF]) # file_lines r))"
  by pat_completeness auto
termination
proof (relation "measure length")
  show "wf (measure length)" by simp
next
  fix s :: string and x r
  assume "s \<noteq> []" and d: "dropWhile (\<lambda>c. c \<noteq> LF) s = x # r"
  have "length (dropWhile (\<lambda>c. c \<noteq> LF) s) \<le> length s"
    by (rule length_dropWhile_le)
  with d show "(r, s) \<in> measure length" by simp
qed

declare file_lines.simps [simp del]

text \<open>
  \<^verbatim>\<open>re.sub(r'//.*$', '', s)\<close>. The dot does not span a line feed, so the pattern
  matches at a position holding two slashes when no line feed follows, a final one
  apart; the match then runs to the end of the string, or up to that final line feed,
  which stays. At any other position the character is copied.
\<close>

definition comment_at :: "string \<Rightarrow> bool" where
  "comment_at s \<longleftrightarrow> prefix ''//'' s \<and> LF \<notin> set (butlast (drop 2 s))"

fun re_sub_comment :: "string \<Rightarrow> string" where
  "re_sub_comment [] = []"
| "re_sub_comment (c # cs) =
     (if comment_at (c # cs) then (if last cs = LF then [LF] else [])
      else c # re_sub_comment cs)"

definition wanted :: "string \<Rightarrow> bool" where
  "wanted const_name \<longleftrightarrow>
     const_name = ''THIRD_PARTY_EVENT_ID_MIN''
     \<or> prefix ''EVT_'' const_name
     \<or> prefix ''CDU_EVT_OFFSET_'' const_name"

text \<open>The body of the loop over the lines, lines 65 to 80; \<open>defines\<close> is the list built so far.\<close>

definition scan_line :: "string \<Rightarrow> define_record list \<Rightarrow> define_record list" where
  "scan_line line0 defines =
     (let line = strip line0 in
      if prefix ''#define'' line then
        (let parts = split_ws 2 line in
         if length parts \<ge> 3 then
           (let const_name = parts ! 1; value_expr = parts ! 2 in
            if wanted const_name
            then defines @ [(const_name, strip (re_sub_comment value_expr))]
            else defines)
         else defines)
      else defines)"

text \<open>The argument is the decoded content of the file that \<^verbatim>\<open>filename\<close> names.\<close>

definition extract_defines_from_header :: "string \<Rightarrow> define_record list" where
  "extract_defines_from_header content =
     fold scan_line (file_lines (universal_newlines content)) []"

section \<open>The resolver\<close>

text \<open>
  \<^verbatim>\<open>resolve_dependencies\<close> is a generator. Its local variables are the fields of
  \<open>resolver\<close>; \<open>yielded\<close> is the sequence of pairs handed to the consumer so far, oldest
  first. The list \<^verbatim>\<open>still_unresolved\<close> lives for one pass and is threaded through the
  inner loop together with the symbol table and the pairs yielded.
\<close>

record resolver =
  symbols :: "string \<rightharpoonup> int"
  unresolved :: "define_record list"
  resolved_count :: nat
  yielded :: "(string \<times> int) list"

type_synonym pass_state = "(string \<rightharpoonup> int) \<times> (string \<times> int) list \<times> define_record list"

text \<open>The body of the inner loop, lines 96 to 102: one \<^verbatim>\<open>try\<close> with its handler.\<close>

fun attempt :: "define_record \<Rightarrow> pass_state \<Rightarrow> pass_state" where
  "attempt (const_name, value_expr) (syms, ys, still_unresolved) =
     (case evaluate value_expr syms of
        Inr v \<Rightarrow> (syms(const_name \<mapsto> v), ys @ [(const_name, v)], still_unresolved)
      | Inl _ \<Rightarrow> (syms, ys, still_unresolved @ [(const_name, value_expr)]))"

text \<open>The test of the \<^verbatim>\<open>while\<close> loop, line 91.\<close>

definition loop_cond :: "resolver \<Rightarrow> bool" where
  "loop_cond st \<longleftrightarrow> unresolved st \<noteq> [] \<and> length (unresolved st) \<noteq> resolved_count st"

text \<open>One pass: the body of the \<^verbatim>\<open>while\<close> loop, lines 92 to 104.\<close>

definition one_pass :: "resolver \<Rightarrow> resolver" where
  "one_pass st =
     (case fold attempt (unresolved st) (symbols st, yielded st, []) of
        (syms, ys, still_unresolved) \<Rightarrow>
          \<lparr>symbols = syms, unresolved = still_unresolved,
           resolved_count = length (unresolved st), yielded = ys\<rparr>)"

text \<open>
  The measure that decreases from pass to pass: the working set never grows, and the loop
  is left as soon as its size stays the same.
\<close>

definition loop_measure :: "resolver \<Rightarrow> nat" where
  "loop_measure st =
     2 * length (unresolved st) + (if length (unresolved st) \<noteq> resolved_count st then 1 else 0)"

text \<open>The \<^verbatim>\<open>while\<close> loop, lines 91 to 104.\<close>

function while_loop :: "resolver \<Rightarrow> resolver" where
  "while_loop st = (if loop_cond st then while_loop (one_pass st) else st)"
  by pat_completeness auto

text \<open>
  The number of times the body of the \<^verbatim>\<open>while\<close> loop runs from a state: the same test
  and the same body as \<open>while_loop\<close>, counting the iterations.
\<close>

function passes_run :: "resolver \<Rightarrow> nat" where
  "passes_run st = (if loop_cond st then Suc (passes_run (one_pass st)) else 0)"
  by pat_completeness auto

text \<open>Lines 86 to 88.\<close>

definition initial :: "define_record list \<Rightarrow> resolver" where
  "initial defines =
     \<lparr>symbols = Map.empty, unresolved = defines, resolved_count = 0, yielded = []\<rparr>"

text \<open>The state in which the \<^verbatim>\<open>while\<close> loop is left.\<close>

definition resolve_state :: "define_record list \<Rightarrow> resolver" where
  "resolve_state defines = while_loop (initial defines)"

text \<open>The pairs a consumer that exhausts the generator receives, in order.\<close>

definition resolve_dependencies :: "define_record list \<Rightarrow> (string \<times> int) list" where
  "resolve_dependencies defines = yielded (resolve_state defines)"

text \<open>Lines 107 and 108: the lines printed to the standard error stream.\<close>

definition error_line :: "define_record \<Rightarrow> string" where
  "error_line d = ''Error: Could not resolve '' @ fst d @ '' = '' @ snd d"

definition resolve_stderr :: "define_record list \<Rightarrow> string list" where
  "resolve_stderr defines = map error_line (unresolved (resolve_state defines))"

section \<open>Notions used to state the properties\<close>

text \<open>
  The table that holds exactly the given pairs, a later pair replacing an earlier one of
  the same name: the dictionary after the assignments of line 98 for these pairs.
\<close>

definition symtab :: "(string \<times> int) list \<Rightarrow> (string \<rightharpoonup> int)" where
  "symtab ys = map_of (rev ys)"

text \<open>
  The names whose presence in the symbol table decides the result of an evaluation: the
  keys that \<open>evaluate\<close> and \<open>evaluate_operand\<close> look up. A literal needs none; an
  expression that is a key of the table is that symbol; a parenthesised expression needs
  its operands that are not literals; any other expression is looked up as a name. An
  evaluation returns a value exactly when all these names are keys of the table and the
  builtin \<^verbatim>\<open>int\<close> raises no error on a literal of it, which is lemma
  \<open>evaluate_ok_iff_reads\<close> below; it raises one only on a decimal literal of more digits
  than its limit, lemma \<open>number_body_error_long\<close>.
\<close>

definition operand_reads :: "string \<Rightarrow> string list" where
  "operand_reads operand0 =
     (let operand = strip operand0 in if re_match_number operand then [] else [operand])"

definition reads :: "string \<Rightarrow> (string \<rightharpoonup> int) \<Rightarrow> string list" where
  "reads expr0 syms =
     (let expr = re_sub_ws (strip expr0) in
      if re_match_number expr then []
      else
        (case syms expr of
           Some v \<Rightarrow> [expr]
         | None \<Rightarrow>
             (case re_match_binary (CHR ''+'') expr of
                Some (g1, g2) \<Rightarrow> operand_reads (strip g1) @ operand_reads (strip g2)
              | None \<Rightarrow>
                  (case re_match_binary (CHR ''-'') expr of
                     Some (g1, g2) \<Rightarrow> operand_reads (strip g1) @ operand_reads (strip g2)
                   | None \<Rightarrow> [expr]))))"

text \<open>
  The names that can be given a value from a list of records at all: a name is derivable
  when one of its records evaluates against some table of derivable names. An expression
  is resolvable from the records when it evaluates against some table of derivable names.
\<close>

inductive_set derivable :: "define_record list \<Rightarrow> string set" for ds where
  step: "(n, e) \<in> set ds \<Longrightarrow> \<forall>d\<in>dom s. d \<in> derivable ds \<Longrightarrow> evaluate e s = Inr v
     \<Longrightarrow> n \<in> derivable ds"

definition resolvable :: "define_record list \<Rightarrow> string \<Rightarrow> bool" where
  "resolvable ds e \<longleftrightarrow> (\<exists>s v. dom s \<subseteq> derivable ds \<and> evaluate e s = Inr v)"

text \<open>
  The points of a run. \<open>pass_start ds k\<close> is the state after \<open>k\<close> executions of the
  body of the \<^verbatim>\<open>while\<close> loop; \<open>during ds k j\<close> is the state of the inner loop of the
  next pass after \<open>j\<close> of its iterations. They are points of the run for
  \<open>k < passes_run (initial ds)\<close>.
\<close>

definition pass_start :: "define_record list \<Rightarrow> nat \<Rightarrow> resolver" where
  "pass_start ds k = (one_pass ^^ k) (initial ds)"

definition during :: "define_record list \<Rightarrow> nat \<Rightarrow> nat \<Rightarrow> pass_state" where
  "during ds k j =
     fold attempt (take j (unresolved (pass_start ds k)))
       (symbols (pass_start ds k), yielded (pass_start ds k), [])"

text \<open>
  \<open>justified rs ys\<close>: the pairs \<open>ys\<close> come from the records \<open>rs\<close>, position by position,
  each value being that of the record's expression against the table of the pairs before
  it.
\<close>

inductive justified :: "define_record list \<Rightarrow> (string \<times> int) list \<Rightarrow> bool" where
  nil: "justified [] []"
| snoc: "justified rs ys \<Longrightarrow> evaluate e (symtab ys) = Inr v
     \<Longrightarrow> justified (rs @ [(n, e)]) (ys @ [(n, v)])"

text \<open>
  A line of the shape the extractor selects: trimmed, it starts with \<^verbatim>\<open>#define\<close>
  and is a first token \<open>kw\<close>, a run of white space, the token \<open>name\<close>, a run of white
  space, and a remainder \<open>rest\<close> that does not start with white space; the remainder is
  not split any further.
\<close>

definition is_define_line :: "string \<Rightarrow> string \<Rightarrow> string \<Rightarrow> bool" where
  "is_define_line line name rest \<longleftrightarrow>
     prefix ''#define'' (strip line)
     \<and> (\<exists>kw ws1 ws2.
           strip line = kw @ ws1 @ name @ ws2 @ rest
         \<and> kw \<noteq> [] \<and> (\<forall>c\<in>set kw. \<not> isspace c)
         \<and> ws1 \<noteq> [] \<and> (\<forall>c\<in>set ws1. isspace c)
         \<and> name \<noteq> [] \<and> (\<forall>c\<in>set name. \<not> isspace c)
         \<and> ws2 \<noteq> [] \<and> (\<forall>c\<in>set ws2. isspace c)
         \<and> rest \<noteq> [] \<and> \<not> isspace (hd rest))"

text \<open>
  The same shape as the description of the extractor words it: the first token is the
  directive \<^verbatim>\<open>#define\<close> itself.
\<close>

definition is_directive_line :: "string \<Rightarrow> string \<Rightarrow> string \<Rightarrow> bool" where
  "is_directive_line line name rest \<longleftrightarrow>
     (\<exists>ws1 ws2.
           strip line = ''#define'' @ ws1 @ name @ ws2 @ rest
         \<and> ws1 \<noteq> [] \<and> (\<forall>c\<in>set ws1. isspace c)
         \<and> name \<noteq> [] \<and> (\<forall>c\<in>set name. \<not> isspace c)
         \<and> ws2 \<noteq> [] \<and> (\<forall>c\<in>set ws2. isspace c)
         \<and> rest \<noteq> [] \<and> \<not> isspace (hd rest))"

text \<open>The text of a string before its first \<^verbatim>\<open>//\<close>; all of it when there is none.\<close>

fun before_comment :: "string \<Rightarrow> string" where
  "before_comment [] = []"
| "before_comment (c # cs) = (if prefix ''//'' (c # cs) then [] else c # before_comment cs)"

text \<open>
  The number that a string of digits denotes in base \<open>b\<close>, the most significant digit
  first.
\<close>

definition base_value :: "nat \<Rightarrow> string \<Rightarrow> int" where
  "base_value b ds =
     foldl (\<lambda>acc c. acc * int b + int (case digit_value c of None \<Rightarrow> 0 | Some v \<Rightarrow> v)) 0 ds"

text \<open>
  The invariant of the \<^verbatim>\<open>while\<close> loop for the input \<open>ds\<close>: the symbol table is the
  table of the pairs yielded, the records resolved and the working set make up the input,
  and when the test of the loop finds the size of the working set unchanged, no record
  of it evaluates.
\<close>

definition inv :: "define_record list \<Rightarrow> resolver \<Rightarrow> bool" where
  "inv ds st \<longleftrightarrow>
     symbols st = symtab (yielded st)
     \<and> (\<exists>rs. justified rs (yielded st) \<and> mset rs + mset (unresolved st) = mset ds)
     \<and> (length (unresolved st) = resolved_count st
          \<longrightarrow> (\<forall>r\<in>set (unresolved st). isl (evaluate (snd r) (symbols st))))"

section \<open>Termination of the loop\<close>

lemma fold_attempt_length:
  "fold attempt us (sy, ys, still) = (sy', ys', still') \<Longrightarrow>
     length still' + length ys' = length still + length ys + length us"
proof (induction us arbitrary: sy ys still)
  case Nil
  then show ?case by simp
next
  case (Cons u us)
  obtain n e where u: "u = (n, e)" by (cases u)
  show ?case
  proof (cases "evaluate e sy")
    case (Inl err)
    with Cons.prems u
    have "fold attempt us (sy, ys, still @ [(n, e)]) = (sy', ys', still')" by simp
    from Cons.IH [OF this] show ?thesis by simp
  next
    case (Inr v)
    with Cons.prems u
    have "fold attempt us (sy(n \<mapsto> v), ys @ [(n, v)], still) = (sy', ys', still')" by simp
    from Cons.IH [OF this] show ?thesis by simp
  qed
qed

lemma fold_attempt_yielded_mono:
  "fold attempt us (sy, ys, still) = (sy', ys', still') \<Longrightarrow> length ys \<le> length ys'"
proof (induction us arbitrary: sy ys still)
  case Nil
  then show ?case by simp
next
  case (Cons u us)
  obtain n e where u: "u = (n, e)" by (cases u)
  show ?case
  proof (cases "evaluate e sy")
    case (Inl err)
    with Cons.prems u
    have "fold attempt us (sy, ys, still @ [(n, e)]) = (sy', ys', still')" by simp
    from Cons.IH [OF this] show ?thesis .
  next
    case (Inr v)
    with Cons.prems u
    have "fold attempt us (sy(n \<mapsto> v), ys @ [(n, v)], still) = (sy', ys', still')" by simp
    from Cons.IH [OF this] show ?thesis by simp
  qed
qed

lemma one_pass_length: "length (unresolved (one_pass st)) \<le> length (unresolved st)"
proof -
  obtain sy ys still where
    f: "fold attempt (unresolved st) (symbols st, yielded st, []) = (sy, ys, still)"
    by (cases "fold attempt (unresolved st) (symbols st, yielded st, [])")
  from fold_attempt_length [OF f] fold_attempt_yielded_mono [OF f]
  have "length still \<le> length (unresolved st)" by simp
  with f show ?thesis by (simp add: one_pass_def)
qed

lemma one_pass_resolved_count [simp]:
  "resolved_count (one_pass st) = length (unresolved st)"
  by (simp add: one_pass_def split: prod.splits)

lemma loop_measure_decreases:
  "loop_cond st \<Longrightarrow> loop_measure (one_pass st) < loop_measure st"
  using one_pass_length [of st] by (auto simp: loop_measure_def loop_cond_def)

termination while_loop
  by (relation "measure loop_measure") (simp_all add: loop_measure_decreases)

termination passes_run
  by (relation "measure loop_measure") (simp_all add: loop_measure_decreases)

declare while_loop.simps [simp del]

declare passes_run.simps [simp del]

section \<open>Properties of the string operations\<close>

lemma last_dropWhile: "dropWhile P xs \<noteq> [] \<Longrightarrow> last (dropWhile P xs) = last xs"
  by (induction xs) (auto split: if_splits)

lemma strip_ends:
  assumes "strip s \<noteq> []"
  shows "\<not> isspace (hd (strip s))" and "\<not> isspace (last (strip s))"
proof -
  let ?t = "dropWhile isspace s"
  let ?u = "dropWhile isspace (rev ?t)"
  from assms have u: "?u \<noteq> []" by (simp add: strip_def)
  have t: "?t \<noteq> []"
  proof
    assume a: "?t = []"
    show False using u unfolding a by simp
  qed
  from hd_dropWhile [OF u] show "\<not> isspace (last (strip s))"
    using u by (simp add: strip_def last_rev)
  have "hd (strip s) = last ?u"
    using u by (simp add: strip_def hd_rev)
  also have "\<dots> = last (rev ?t)" by (rule last_dropWhile [OF u])
  also have "\<dots> = hd ?t" using t by (simp add: last_rev)
  finally show "\<not> isspace (hd (strip s))"
    using hd_dropWhile [OF t] by simp
qed

lemma dropWhile_strip [simp]: "dropWhile isspace (strip s) = strip s"
  using strip_ends(1) [of s] by (cases "strip s = []") (simp_all add: dropWhile_eq_self_iff)

lemma set_strip: "set (strip s) \<subseteq> set s"
  by (auto simp: strip_def dest!: set_dropWhileD)

lemma takeWhile_token:
  assumes "\<forall>c\<in>set t. \<not> isspace c" and "r = [] \<or> isspace (hd r)"
  shows "takeWhile (\<lambda>c. \<not> isspace c) (t @ r) = t"
    and "dropWhile (\<lambda>c. \<not> isspace c) (t @ r) = r"
  using assms by (auto simp: takeWhile_eq_Nil_iff dropWhile_eq_self_iff)

lemma dropWhile_gap:
  assumes "\<forall>c\<in>set w. isspace c" and "r = [] \<or> \<not> isspace (hd r)"
  shows "dropWhile isspace (w @ r) = r"
  using assms by (auto simp: dropWhile_eq_self_iff)

lemma split_ws_three:
  assumes "kw \<noteq> []" "\<forall>c\<in>set kw. \<not> isspace c"
    and "ws1 \<noteq> []" "\<forall>c\<in>set ws1. isspace c"
    and "name \<noteq> []" "\<forall>c\<in>set name. \<not> isspace c"
    and "ws2 \<noteq> []" "\<forall>c\<in>set ws2. isspace c"
    and "rest \<noteq> []" "\<not> isspace (hd rest)"
  shows "split_ws 2 (kw @ ws1 @ name @ ws2 @ rest) = [kw, name, rest]"
proof -
  let ?r2 = "ws2 @ rest" and ?r1 = "ws1 @ name @ ws2 @ rest"
  have h1: "isspace (hd ?r1)"
    using assms(3,4) by (cases ws1) simp_all
  have h2: "isspace (hd ?r2)"
    using assms(7,8) by (cases ws2) simp_all
  have k: "\<not> isspace (hd (kw @ ?r1))"
    using assms(1,2) by (cases kw) simp_all
  have n: "\<not> isspace (hd (name @ ?r2))"
    using assms(5,6) by (cases name) simp_all
  have a: "dropWhile isspace (kw @ ?r1) = kw @ ?r1"
    by (rule dropWhile_gap [OF _ disjI2 [OF k], of "[]", simplified])
  have b1: "takeWhile (\<lambda>c. \<not> isspace c) (kw @ ?r1) = kw"
    by (rule takeWhile_token(1) [OF assms(2) disjI2 [OF h1]])
  have b2: "dropWhile (\<lambda>c. \<not> isspace c) (kw @ ?r1) = ?r1"
    by (rule takeWhile_token(2) [OF assms(2) disjI2 [OF h1]])
  have c: "dropWhile isspace ?r1 = name @ ?r2"
    by (rule dropWhile_gap [OF assms(4) disjI2 [OF n]])
  have d1: "takeWhile (\<lambda>c. \<not> isspace c) (name @ ?r2) = name"
    by (rule takeWhile_token(1) [OF assms(6) disjI2 [OF h2]])
  have d2: "dropWhile (\<lambda>c. \<not> isspace c) (name @ ?r2) = ?r2"
    by (rule takeWhile_token(2) [OF assms(6) disjI2 [OF h2]])
  have e: "dropWhile isspace ?r2 = rest"
    by (rule dropWhile_gap [OF assms(8) disjI2 [OF assms(10)]])
  have x0: "(kw @ ?r1 = []) = False"
    using assms(1) by simp
  have x1: "(name @ ?r2 = []) = False"
    using assms(5) by simp
  have x2: "(rest = []) = False"
    using assms(9) by simp
  have s0: "split_ws 0 ?r2 = [rest]"
    unfolding split_ws.simps(1) [of ?r2] Let_def e x2 if_False ..
  have s1: "split_ws (Suc 0) ?r1 = [name, rest]"
    unfolding split_ws.simps(2) [of 0 ?r1] Let_def c x1 if_False d1 d2 s0 ..
  have s2: "split_ws (Suc (Suc 0)) (kw @ ?r1) = [kw, name, rest]"
    unfolding split_ws.simps(2) [of "Suc 0" "kw @ ?r1"] Let_def a x0 if_False b1 b2 s1 ..
  show ?thesis
    unfolding numeral_2_eq_2 by (rule s2)
qed

lemma token_parts:
  assumes "r \<noteq> []" and "\<not> isspace (hd r)"
  shows "takeWhile (\<lambda>c. \<not> isspace c) r \<noteq> []"
    and "\<forall>c\<in>set (takeWhile (\<lambda>c. \<not> isspace c) r). \<not> isspace c"
  using assms by (auto simp: takeWhile_eq_Nil_iff dest: set_takeWhileD)

lemma gap_parts:
  assumes "dropWhile isspace (dropWhile (\<lambda>c. \<not> isspace c) r) \<noteq> []"
  shows "takeWhile isspace (dropWhile (\<lambda>c. \<not> isspace c) r) \<noteq> []"
    and "\<forall>c\<in>set (takeWhile isspace (dropWhile (\<lambda>c. \<not> isspace c) r)). isspace c"
proof -
  let ?d = "dropWhile (\<lambda>c. \<not> isspace c) r"
  have "?d \<noteq> []"
  proof
    assume a: "?d = []"
    show False using assms unfolding a by simp
  qed
  from hd_dropWhile [OF this] have "isspace (hd ?d)" by simp
  with \<open>?d \<noteq> []\<close> show "takeWhile isspace ?d \<noteq> []"
    by (simp add: takeWhile_eq_Nil_iff)
  show "\<forall>c\<in>set (takeWhile isspace ?d). isspace c"
    by (auto dest: set_takeWhileD)
qed

lemma split_ws_parts:
  assumes "3 \<le> length (split_ws 2 s)" and "dropWhile isspace s = s"
  shows "\<exists>kw ws1 name ws2 rest.
      split_ws 2 s = [kw, name, rest]
    \<and> s = kw @ ws1 @ name @ ws2 @ rest
    \<and> kw \<noteq> [] \<and> (\<forall>c\<in>set kw. \<not> isspace c)
    \<and> ws1 \<noteq> [] \<and> (\<forall>c\<in>set ws1. isspace c)
    \<and> name \<noteq> [] \<and> (\<forall>c\<in>set name. \<not> isspace c)
    \<and> ws2 \<noteq> [] \<and> (\<forall>c\<in>set ws2. isspace c)
    \<and> rest \<noteq> [] \<and> \<not> isspace (hd rest)"
proof -
  let ?tok = "takeWhile (\<lambda>c. \<not> isspace c)" and ?skip = "dropWhile (\<lambda>c. \<not> isspace c)"
  let ?r1 = "dropWhile isspace (?skip s)"
  let ?r2 = "dropWhile isspace (?skip ?r1)"
  have s: "s \<noteq> []"
  proof
    assume "s = []"
    with assms(1) show False by (simp add: numeral_2_eq_2)
  qed
  with assms(2) have hs: "\<not> isspace (hd s)"
    by (simp add: dropWhile_eq_self_iff)
  have one: "split_ws 2 s = ?tok s # split_ws 1 (?skip s)"
    unfolding numeral_2_eq_2 One_nat_def split_ws.simps(2) [of "Suc 0" s] Let_def assms(2)
    using s by simp
  have r1: "?r1 \<noteq> []"
  proof
    assume a: "?r1 = []"
    have "split_ws 1 (?skip s) = []"
      unfolding One_nat_def split_ws.simps(2) [of 0 "?skip s"] Let_def a by simp
    with one assms(1) show False by simp
  qed
  have two: "split_ws 1 (?skip s) = ?tok ?r1 # split_ws 0 (?skip ?r1)"
    unfolding One_nat_def split_ws.simps(2) [of 0 "?skip s"] Let_def
    using r1 by (simp only: if_False)
  have r2: "?r2 \<noteq> []"
  proof
    assume a: "?r2 = []"
    have "split_ws 0 (?skip ?r1) = []"
      unfolding split_ws.simps(1) [of "?skip ?r1"] Let_def a by simp
    with one two assms(1) show False by simp
  qed
  have three: "split_ws 0 (?skip ?r1) = [?r2]"
    unfolding split_ws.simps(1) [of "?skip ?r1"] Let_def
    using r2 by (simp only: if_False)
  have parts: "split_ws 2 s = [?tok s, ?tok ?r1, ?r2]"
    unfolding one two three ..
  have d3: "takeWhile isspace (?skip ?r1) @ ?r2 = ?skip ?r1"
    by (rule takeWhile_dropWhile_id)
  have d2: "?tok ?r1 @ ?skip ?r1 = ?r1"
    by (rule takeWhile_dropWhile_id)
  have d1: "takeWhile isspace (?skip s) @ ?r1 = ?skip s"
    by (rule takeWhile_dropWhile_id)
  have d0: "?tok s @ ?skip s = s"
    by (rule takeWhile_dropWhile_id)
  have dec: "s = ?tok s @ takeWhile isspace (?skip s) @ ?tok ?r1
      @ takeWhile isspace (?skip ?r1) @ ?r2"
    unfolding d3 d2 d1 d0 ..
  have h1: "\<not> isspace (hd ?r1)" using hd_dropWhile [OF r1] .
  have h2: "\<not> isspace (hd ?r2)" using hd_dropWhile [OF r2] .
  note t0 = token_parts [OF s hs] and g1 = gap_parts [OF r1]
    and t1 = token_parts [OF r1 h1] and g2 = gap_parts [OF r2]
  show ?thesis
    apply (rule exI [of _ "?tok s"])
    apply (rule exI [of _ "takeWhile isspace (?skip s)"])
    apply (rule exI [of _ "?tok ?r1"])
    apply (rule exI [of _ "takeWhile isspace (?skip ?r1)"])
    apply (rule exI [of _ "?r2"])
    apply (intro conjI)
    apply (rule parts)
    apply (rule dec)
    apply (rule t0(1))
    apply (rule t0(2))
    apply (rule g1(1))
    apply (rule g1(2))
    apply (rule t1(1))
    apply (rule t1(2))
    apply (rule g2(1))
    apply (rule g2(2))
    apply (rule r2)
    apply (rule h2)
    done
qed

lemma file_lines_no_inner_lf:
  "line \<in> set (file_lines s) \<Longrightarrow> LF \<notin> set (butlast line)"
proof (induction s rule: file_lines.induct)
  case (1 s)
  show ?case
  proof (cases "s = []")
    case True
    then have "file_lines s = []" by (simp add: file_lines.simps [of "[]"])
    with "1.prems" show ?thesis by simp
  next
    case False
    note ne = this
    show ?thesis
    proof (cases "dropWhile (\<lambda>c. c \<noteq> LF) s")
      case Nil
      with ne "1.prems" have "line = s" by (simp add: file_lines.simps [of s])
      moreover from Nil have "LF \<notin> set s" by auto
      ultimately show ?thesis by (auto dest: in_set_butlastD)
    next
      case (Cons x r)
      with ne "1.prems"
      have "line = takeWhile (\<lambda>c. c \<noteq> LF) s @ [LF] \<or> line \<in> set (file_lines r)"
        by (simp add: file_lines.simps [of s])
      then show ?thesis
      proof
        assume "line = takeWhile (\<lambda>c. c \<noteq> LF) s @ [LF]"
        then show ?thesis by (auto dest: set_takeWhileD)
      next
        assume "line \<in> set (file_lines r)"
        with "1.IH" [OF ne Cons] show ?thesis .
      qed
    qed
  qed
qed

lemma isspace_LF: "isspace LF"
  by (simp add: isspace_def LF_def)

lemma strip_snoc_space:
  assumes "isspace c"
  shows "strip (s @ [c]) = strip s"
proof (cases "\<forall>x\<in>set s. isspace x")
  case True
  then have a: "dropWhile isspace s = []"
    by (simp only: dropWhile_eq_Nil_conv)
  have "dropWhile isspace (s @ [c]) = dropWhile isspace [c]"
    by (rule dropWhile_append2) (use True in blast)
  with assms have b: "dropWhile isspace (s @ [c]) = []"
    by simp
  show ?thesis
    unfolding strip_def a b ..
next
  case False
  then obtain x where "x \<in> set s" "\<not> isspace x"
    by blast
  then have "dropWhile isspace (s @ [c]) = dropWhile isspace s @ [c]"
    by (rule dropWhile_append1)
  with assms show ?thesis by (simp add: strip_def)
qed

lemma strip_no_lf:
  assumes "LF \<notin> set (butlast line)"
  shows "LF \<notin> set (strip line)"
proof (cases "line = []")
  case True
  then show ?thesis by (simp add: strip_def)
next
  case False
  then have l: "line = butlast line @ [last line]" by simp
  show ?thesis
  proof (cases "last line = LF")
    case True
    with l have "strip line = strip (butlast line)"
      by (metis strip_snoc_space isspace_LF)
    with set_strip [of "butlast line"] assms show ?thesis by auto
  next
    case False
    with l assms have "LF \<notin> set line"
      by (metis Un_iff empty_iff insert_iff list.set(1) list.set(2) set_append)
    with set_strip [of line] show ?thesis by auto
  qed
qed

lemma re_sub_comment_no_lf:
  "LF \<notin> set s \<Longrightarrow> re_sub_comment s = before_comment s"
proof (induction s)
  case Nil
  then show ?case by simp
next
  case (Cons c cs)
  from Cons.prems have n: "LF \<notin> set cs" by simp
  have b: "LF \<notin> set (butlast (drop 2 (c # cs)))"
    using Cons.prems by (auto dest!: in_set_butlastD in_set_dropD)
  show ?case
  proof (cases "prefix ''//'' (c # cs)")
    case True
    then have "cs \<noteq> []" by auto
    with n have l: "(last cs = LF) = False" by (metis last_in_set)
    from True b have ca: "comment_at (c # cs) = True"
      unfolding comment_at_def by blast
    have "re_sub_comment (c # cs) = []"
      unfolding re_sub_comment.simps ca l if_True if_False ..
    moreover from True have "before_comment (c # cs) = []"
      by (simp only: before_comment.simps if_True)
    ultimately show ?thesis by (rule trans [OF _ sym])
  next
    case False
    then have ca: "comment_at (c # cs) = False"
      unfolding comment_at_def by blast
    have "re_sub_comment (c # cs) = c # re_sub_comment cs"
      unfolding re_sub_comment.simps(2) [of c cs] ca if_False ..
    moreover from False have "before_comment (c # cs) = c # before_comment cs"
      by (simp only: before_comment.simps if_False)
    ultimately show ?thesis
      using Cons.IH [OF n] by (simp only:)
  qed
qed

lemma before_comment_hd:
  "before_comment s \<noteq> [] \<Longrightarrow> hd (before_comment s) = hd s"
  by (cases s) (auto split: if_splits)

lemma prefix_single: "prefix [x] ys \<longleftrightarrow> ys \<noteq> [] \<and> hd ys = x"
  by (cases ys) auto

lemma prefix_two: "prefix [x, y] (c # cs) \<longleftrightarrow> c = x \<and> cs \<noteq> [] \<and> hd cs = y"
  by (cases cs) auto

lemma before_comment_clean: "\<not> sublist ''//'' (before_comment s)"
proof (induction s)
  case Nil
  show ?case by simp
next
  case (Cons c cs)
  show ?case
  proof (cases "prefix ''//'' (c # cs)")
    case True
    then have "before_comment (c # cs) = []"
      by (simp only: before_comment.simps if_True)
    then show ?thesis by simp
  next
    case False
    then have e: "before_comment (c # cs) = c # before_comment cs"
      by (simp only: before_comment.simps if_False)
    have n: "\<not> prefix ''//'' (c # before_comment cs)"
    proof
      assume "prefix ''//'' (c # before_comment cs)"
      then have c: "c = CHR ''/''" and ne: "before_comment cs \<noteq> []"
        and h: "hd (before_comment cs) = CHR ''/''"
        unfolding prefix_two by blast+
      from before_comment_hd [OF ne] h have "hd cs = CHR ''/''"
        by (rule subst)
      moreover from ne have "cs \<noteq> []"
        by (cases cs) simp_all
      ultimately have "prefix ''//'' (c # cs)"
        unfolding prefix_two using c by blast
      with False show False ..
    qed
    have "sublist ''//'' (c # before_comment cs)
        \<longleftrightarrow> prefix ''//'' (c # before_comment cs) \<or> sublist ''//'' (before_comment cs)"
      by (rule sublist_Cons_right)
    with n Cons.IH have "\<not> sublist ''//'' (c # before_comment cs)"
      by blast
    then show ?thesis
      unfolding e .
  qed
qed

lemma before_comment_split:
  "s = before_comment s \<or> (\<exists>v. s = before_comment s @ ''//'' @ v)"
proof (induction s)
  case Nil
  then show ?case by simp
next
  case (Cons c cs)
  show ?case
  proof (cases "prefix ''//'' (c # cs)")
    case True
    then show ?thesis by (auto simp: prefix_def)
  next
    case False
    with Cons.IH show ?thesis by auto
  qed
qed

lemma strip_sublist: "sublist (strip s) s"
proof -
  let ?t = "dropWhile isspace s"
  have "strip s @ rev (takeWhile isspace (rev ?t))
      = rev (takeWhile isspace (rev ?t) @ dropWhile isspace (rev ?t))"
    by (simp only: strip_def rev_append)
  also have "\<dots> = rev (rev ?t)"
    by (simp only: takeWhile_dropWhile_id)
  also have "\<dots> = ?t"
    by (simp only: rev_rev_ident)
  finally have "?t = strip s @ rev (takeWhile isspace (rev ?t))"
    by (rule sym)
  moreover have "s = takeWhile isspace s @ ?t"
    by simp
  ultimately have "s = takeWhile isspace s @ strip s @ rev (takeWhile isspace (rev ?t))"
    by simp
  then show ?thesis
    unfolding sublist_def by blast
qed

lemma strip_idem: "strip (strip s) = strip s"
proof (cases "strip s = []")
  case True
  have "strip [] = []"
    by (simp add: strip_def)
  with True show ?thesis
    by (simp only:)
next
  case False
  have "hd (rev (strip s)) = last (strip s)"
    by (rule hd_rev)
  with strip_ends(2) [OF False] have "\<not> isspace (hd (rev (strip s)))"
    by metis
  then have "rev (strip s) = [] \<or> \<not> isspace (hd (rev (strip s)))"
    by (rule disjI2)
  then have d: "dropWhile isspace (rev (strip s)) = rev (strip s)"
    by (simp only: dropWhile_eq_self_iff)
  show ?thesis
    unfolding strip_def [of "strip s"] dropWhile_strip d rev_rev_ident ..
qed

section \<open>Properties of the literals\<close>

lemma re_digit_value: "re_digit c \<Longrightarrow> \<exists>v<10. digit_value c = Some v"
  unfolding re_digit_def digit_value_def by auto

lemma re_hex_value: "re_hex c \<Longrightarrow> \<exists>v<16. digit_value c = Some v"
  unfolding re_hex_def digit_value_def re_digit_def by auto

lemma re_hex_not_space: "re_hex c \<Longrightarrow> \<not> isspace c"
  unfolding re_hex_def isspace_def by auto

lemma re_digit_hex: "re_digit c \<Longrightarrow> re_hex c"
  unfolding re_hex_def re_digit_def by auto

lemma digit_not_underscore: "digit_value c = Some v \<Longrightarrow> c \<noteq> CHR ''_''"
  unfolding digit_value_def re_digit_def by auto

lemma int_digits_value:
  assumes "\<forall>c\<in>set ds. \<exists>v<b. digit_value c = Some v"
  shows "int_digits b acc ds
     = Some (foldl (\<lambda>acc c. acc * int b + int (case digit_value c of None \<Rightarrow> 0 | Some v \<Rightarrow> v))
          acc ds)"
  using assms
proof (induction b acc ds rule: int_digits.induct)
  case (1 b acc)
  show ?case by simp
next
  case (2 b acc c)
  then obtain v where "v < b" "digit_value c = Some v" by auto
  then show ?case by simp
next
  case (3 b acc c d cs)
  from "3.prems" obtain v where v: "v < b" "digit_value c = Some v" by auto
  then have n: "c \<noteq> CHR ''_''" by (auto dest: digit_not_underscore)
  from "3.prems" have r: "\<forall>c\<in>set (d # cs). \<exists>v<b. digit_value c = Some v" by simp
  have "int_digits b acc (c # d # cs) = int_digits b (acc * int b + int v) (d # cs)"
    using n v by (simp only: int_digits.simps if_False if_True option.case)
  also have "\<dots> = Some (foldl (\<lambda>acc c. acc * int b
        + int (case digit_value c of None \<Rightarrow> 0 | Some v \<Rightarrow> v)) (acc * int b + int v) (d # cs))"
    by (rule "3.IH"(2) [OF n v(2) v(1) r])
  finally show ?case
    using v(2) by simp
qed

lemma strip_id:
  assumes "\<forall>c\<in>set x. \<not> isspace c"
  shows "strip x = x"
proof -
  have a: "dropWhile isspace x = x"
    using assms by (cases x) simp_all
  have "dropWhile isspace (rev x) = rev x"
    using assms by (cases "rev x") (simp, metis dropWhile.simps(2) list.set_intros(1) set_rev)
  then show ?thesis
    unfolding strip_def a by simp
qed

lemma int_strip_id:
  assumes "\<forall>c\<in>set x. \<not> isspace c"
  shows "int_strip x = x"
proof -
  have n: "\<forall>c\<in>set x. \<not> int_isspace c"
    using assms unfolding int_isspace_def isspace_def by auto
  have a: "dropWhile int_isspace x = x"
    using n by (cases x) simp_all
  have "dropWhile int_isspace (rev x) = rev x"
    using n by (cases "rev x") (simp, metis dropWhile.simps(2) list.set_intros(1) set_rev)
  then show ?thesis
    unfolding int_strip_def a by simp
qed

lemma hex_literal_clean:
  assumes "list_all re_hex h"
  shows "\<forall>c\<in>set (''0x'' @ h). \<not> isspace c"
proof -
  have "\<not> isspace CHR ''0''" "\<not> isspace CHR ''x''"
    by (simp_all add: isspace_def)
  with assms show ?thesis
    by (auto simp: list_all_iff dest: re_hex_not_space)
qed

lemma not_underscore:
  assumes "\<forall>c\<in>set h. \<exists>v<b. digit_value c = Some v"
  shows "h \<noteq> ''_''"
proof
  assume "h = ''_''"
  with assms obtain v where "digit_value CHR ''_'' = Some v" by auto
  from digit_not_underscore [OF this] show False by simp
qed

lemma int_unsigned_prefixed:
  assumes "h \<noteq> []" and "h \<noteq> ''_''"
  shows "int_unsigned 16 (''0x'' @ h) = int_digits 16 0 h"
  using assms by (simp add: int_unsigned_def)

lemma py_int_prefixed:
  assumes "int_strip (''0x'' @ h) = ''0x'' @ h" and "int_unsigned 16 (''0x'' @ h) = Some w"
  shows "py_int (''0x'' @ h) 16 = Inr w"
  unfolding py_int_def Let_def assms(1) using assms(2) by simp

lemma parse_hex_literal:
  assumes "h \<noteq> []" and "list_all re_hex h"
  shows "parse_c_value (''0x'' @ h) = Inr (base_value 16 h)"
proof -
  let ?x = "''0x'' @ h"
  have s: "strip ?x = ?x"
    by (rule strip_id [OF hex_literal_clean [OF assms(2)]])
  have d: "\<forall>c\<in>set h. \<exists>v<16. digit_value c = Some v"
    using assms(2) by (auto simp: list_all_iff dest: re_hex_value)
  have "int_unsigned 16 ?x = int_digits 16 0 h"
    by (rule int_unsigned_prefixed [OF assms(1) not_underscore [OF d]])
  also have "\<dots> = Some (base_value 16 h)"
    unfolding base_value_def by (rule int_digits_value [OF d])
  finally have "py_int ?x 16 = Inr (base_value 16 h)"
    by (rule py_int_prefixed [OF int_strip_id [OF hex_literal_clean [OF assms(2)]]])
  moreover have "prefix ''0x'' (strip ?x)"
    unfolding s by simp
  ultimately show ?thesis
    unfolding parse_c_value_def Let_def s by (simp only: if_True simp_thms)
qed

lemma int_unsigned_plain:
  assumes "d = c # cs" and "c \<noteq> CHR ''_''" and "length d \<le> int_max_str_digits"
  shows "int_unsigned 10 d = int_digits 10 0 d"
proof -
  have "length (filter (\<lambda>c. c \<noteq> CHR ''_'') d) \<le> length d"
    by (rule length_filter_le)
  with assms(3) have "\<not> int_max_str_digits < length (filter (\<lambda>c. c \<noteq> CHR ''_'') d)"
    by arith
  moreover from assms(1,2) have "d \<noteq> []" "hd d \<noteq> CHR ''_''" "\<not> prefix ''0x'' d \<or> True"
    by simp_all
  ultimately show ?thesis
    unfolding int_unsigned_def by simp
qed

lemma int_unsigned_long:
  assumes "int_max_str_digits < length d" and "list_all re_digit d"
  shows "int_unsigned 10 d = None"
proof -
  have "filter (\<lambda>c. c \<noteq> CHR ''_'') d = d"
    using assms(2) by (auto simp: list_all_iff re_digit_def filter_id_conv)
  with assms(1) show ?thesis
    unfolding int_unsigned_def by simp
qed

lemma py_int_plain:
  assumes "int_strip d = d" and "d = c # cs" and "c \<noteq> CHR ''-''" and "c \<noteq> CHR ''+''"
    and "int_unsigned 10 d = Some w"
  shows "py_int d 10 = Inr w"
  unfolding py_int_def Let_def assms(1) using assms(2-5) by simp

lemma digits_not_prefixed:
  assumes "list_all re_digit d"
  shows "\<not> prefix ''0x'' d" and "\<not> prefix ''0X'' d"
proof -
  have n: "\<not> re_digit CHR ''x''" "\<not> re_digit CHR ''X''"
    by (simp_all add: re_digit_def)
  show "\<not> prefix ''0x'' d"
  proof
    assume "prefix ''0x'' d"
    then obtain r where "d = CHR ''0'' # CHR ''x'' # r"
      by (auto simp: prefix_def)
    with assms n show False by simp
  qed
  show "\<not> prefix ''0X'' d"
  proof
    assume "prefix ''0X'' d"
    then obtain r where "d = CHR ''0'' # CHR ''X'' # r"
      by (auto simp: prefix_def)
    with assms n show False by simp
  qed
qed

lemma parse_decimal_literal:
  assumes "d \<noteq> []" and "list_all re_digit d" and "length d \<le> int_max_str_digits"
  shows "parse_c_value d = Inr (base_value 10 d)"
proof -
  from assms(2) have cl: "\<forall>c\<in>set d. \<not> isspace c"
    by (auto simp: list_all_iff dest: re_digit_hex re_hex_not_space)
  then have s: "strip d = d"
    by (rule strip_id)
  have v: "\<forall>c\<in>set d. \<exists>v<10. digit_value c = Some v"
    using assms(2) by (auto simp: list_all_iff dest: re_digit_value)
  from assms obtain c cs where c: "d = c # cs" "re_digit c"
    by (cases d) auto
  from c(2) have h: "c \<noteq> CHR ''_''" "c \<noteq> CHR ''-''" "c \<noteq> CHR ''+''"
    by (auto simp: re_digit_def)
  have dg: "list_all isdigit_char d"
    using assms(2) by (auto simp: list_all_iff isdigit_char_def)
  have "int_unsigned 10 d = int_digits 10 0 d"
    by (rule int_unsigned_plain [OF c(1) h(1) assms(3)])
  also have "\<dots> = Some (base_value 10 d)"
    unfolding base_value_def by (rule int_digits_value [OF v])
  finally have "py_int d 10 = Inr (base_value 10 d)"
    by (rule py_int_plain [OF int_strip_id [OF cl] c(1) h(2,3)])
  with digits_not_prefixed [OF assms(2)] dg assms(1) show ?thesis
    unfolding parse_c_value_def Let_def s by (simp only: if_True if_False simp_thms)
qed

lemma parse_long_decimal_literal:
  assumes "int_max_str_digits < length d" and "list_all re_digit d"
  shows "parse_c_value d = Inl (InvalidLiteral d)"
proof -
  from assms(2) have cl: "\<forall>c\<in>set d. \<not> isspace c"
    by (auto simp: list_all_iff dest: re_digit_hex re_hex_not_space)
  then have s: "strip d = d"
    by (rule strip_id)
  from assms obtain c cs where c: "d = c # cs" "re_digit c"
    by (cases d) auto
  from c(2) have h: "c \<noteq> CHR ''-''" "c \<noteq> CHR ''+''"
    by (auto simp: re_digit_def)
  have dg: "list_all isdigit_char d"
    using assms(2) by (auto simp: list_all_iff isdigit_char_def)
  have "py_int d 10 = Inl (InvalidLiteral d)"
    unfolding py_int_def Let_def int_strip_id [OF cl]
    using c(1) h int_unsigned_long [OF assms] by simp
  moreover from c(1) have "d \<noteq> []"
    by simp
  ultimately show ?thesis
    using digits_not_prefixed [OF assms(2)] dg
    unfolding parse_c_value_def Let_def s by (simp only: if_True if_False simp_thms)
qed

lemma py_int_error: "py_int x b = Inl err \<Longrightarrow> \<exists>t. err = InvalidLiteral t"
  unfolding py_int_def Let_def by (auto split: option.splits)

lemma number_body_parses:
  assumes "number_body x" and "length x \<le> int_max_str_digits"
  shows "\<exists>v. parse_c_value x = Inr v"
proof -
  from assms consider (hex) "prefix ''0x'' x" "drop 2 x \<noteq> []" "list_all re_hex (drop 2 x)"
    | (dec) "x \<noteq> []" "list_all re_digit x"
    unfolding number_body_def by blast
  then show ?thesis
  proof cases
    case hex
    from hex(1) have "x = ''0x'' @ drop 2 x"
      by (auto simp: prefix_def)
    with parse_hex_literal [OF hex(2,3)] show ?thesis
      by metis
  next
    case dec
    with parse_decimal_literal assms(2) show ?thesis by blast
  qed
qed

lemma number_body_clean: "number_body x \<Longrightarrow> \<forall>c\<in>set x. \<not> isspace c"
proof -
  assume "number_body x"
  then consider (hex) "prefix ''0x'' x" "list_all re_hex (drop 2 x)"
    | (dec) "list_all re_digit x"
    unfolding number_body_def by blast
  then show ?thesis
  proof cases
    case hex
    from hex(1) have "x = ''0x'' @ drop 2 x"
      by (auto simp: prefix_def)
    with hex_literal_clean [OF hex(2)] show ?thesis
      by metis
  next
    case dec
    then show ?thesis
      by (auto simp: list_all_iff dest: re_digit_hex re_hex_not_space)
  qed
qed

lemma parse_c_value_strip: "parse_c_value (strip x) = parse_c_value x"
  unfolding parse_c_value_def Let_def strip_idem ..

lemma re_match_number_strip:
  assumes "re_match_number x"
  shows "number_body (strip x)" and "length (strip x) \<le> length x"
    and "parse_c_value x = parse_c_value (strip x)"
proof -
  have "number_body (strip x) \<and> length (strip x) \<le> length x"
  proof (cases "number_body x")
    case True
    from strip_id [OF number_body_clean [OF True]] True show ?thesis by simp
  next
    case False
    with assms obtain t where t: "chop_lf x = Some t" "number_body t"
      unfolding re_match_number_def by (auto split: option.splits)
    then have "x \<noteq> []" "last x = LF" "t = butlast x"
      unfolding chop_lf_def by (auto split: if_splits)
    then have x: "x = t @ [LF]"
      by (metis append_butlast_last_id)
    have "strip x = strip t"
      unfolding x by (rule strip_snoc_space [OF isspace_LF])
    also have "\<dots> = t"
      by (rule strip_id [OF number_body_clean [OF t(2)]])
    finally have "strip x = t" .
    with t(2) x show ?thesis by simp
  qed
  then show "number_body (strip x)" and "length (strip x) \<le> length x"
    by simp_all
  show "parse_c_value x = parse_c_value (strip x)"
    using parse_c_value_strip [of x] by simp
qed

lemma re_match_number_parses:
  assumes "re_match_number x" and "length x \<le> int_max_str_digits"
  shows "\<exists>v. parse_c_value x = Inr v"
proof -
  from re_match_number_strip(2) [OF assms(1)] assms(2)
  have "length (strip x) \<le> int_max_str_digits"
    by simp
  from number_body_parses [OF re_match_number_strip(1) [OF assms(1)] this]
  show ?thesis
    unfolding re_match_number_strip(3) [OF assms(1)] .
qed

lemma number_body_error:
  assumes "number_body x" and "parse_c_value x = Inl err"
  shows "\<exists>t. err = InvalidLiteral t"
proof -
  have s: "strip x = x"
    by (rule strip_id [OF number_body_clean [OF assms(1)]])
  from assms(1) consider (hex) "prefix ''0x'' x" | (dec) "x \<noteq> []" "list_all re_digit x"
    unfolding number_body_def by blast
  then have "\<exists>b. parse_c_value x = py_int x b"
  proof cases
    case hex
    then show ?thesis
      unfolding parse_c_value_def Let_def s by (simp only: if_True simp_thms) blast
  next
    case dec
    from dec(2) have "list_all isdigit_char x"
      by (auto simp: list_all_iff isdigit_char_def)
    with dec(1) digits_not_prefixed [OF dec(2)] show ?thesis
      unfolding parse_c_value_def Let_def s by (simp only: if_True if_False simp_thms) blast
  qed
  with assms(2) py_int_error show ?thesis
    by metis
qed

lemma number_body_error_long:
  assumes "number_body x" and "parse_c_value x = Inl err"
  shows "list_all re_digit x \<and> int_max_str_digits < length x"
proof -
  from assms(1) consider (hex) "prefix ''0x'' x" "drop 2 x \<noteq> []" "list_all re_hex (drop 2 x)"
    | (dec) "x \<noteq> []" "list_all re_digit x"
    unfolding number_body_def by blast
  then show ?thesis
  proof cases
    case hex
    from hex(1) have "x = ''0x'' @ drop 2 x"
      by (auto simp: prefix_def)
    with parse_hex_literal [OF hex(2,3)] assms(2) show ?thesis
      by (metis sum.distinct(1))
  next
    case dec
    have "int_max_str_digits < length x"
    proof (rule ccontr)
      assume "\<not> int_max_str_digits < length x"
      then have "length x \<le> int_max_str_digits"
        by simp
      from parse_decimal_literal [OF dec this] assms(2) show False
        by simp
    qed
    with dec(2) show ?thesis ..
  qed
qed

lemma re_match_number_error:
  assumes "re_match_number x" and "parse_c_value x = Inl err"
  shows "\<exists>t. err = InvalidLiteral t"
  using number_body_error [OF re_match_number_strip(1) [OF assms(1)]] assms(2)
  unfolding re_match_number_strip(3) [OF assms(1)] by blast

section \<open>Properties of the evaluator\<close>

lemma symtab_Nil [simp]: "symtab [] = Map.empty"
  by (simp add: symtab_def)

lemma symtab_snoc [simp]: "symtab (ys @ [(n, v)]) = (symtab ys)(n \<mapsto> v)"
  by (simp add: symtab_def)

lemma dom_symtab: "dom (symtab ys) = fst ` set ys"
  by (simp add: symtab_def dom_map_of_conv_image_fst)

lemma combine_Inr:
  "combine f l r = Inr v \<longleftrightarrow> (\<exists>a b. l = Inr a \<and> r = Inr b \<and> v = f a b)"
  by (auto simp: combine_def split: sum.splits)

lemma evaluate_operand_reads:
  "evaluate_operand x s = Inr v \<Longrightarrow> set (operand_reads x) \<subseteq> dom s"
  by (auto simp: evaluate_operand_def operand_reads_def Let_def split: if_splits option.splits)

lemma evaluate_reads:
  assumes "evaluate e s = Inr v"
  shows "set (reads e s) \<subseteq> dom s"
  using assms
  by (auto simp: evaluate_def reads_def Let_def combine_Inr
      dest!: evaluate_operand_reads split: if_splits option.splits prod.splits)

lemma evaluate_operand_dom_mono:
  "dom s \<subseteq> dom s' \<Longrightarrow> evaluate_operand x s = Inr v \<Longrightarrow> \<exists>v'. evaluate_operand x s' = Inr v'"
  by (auto simp: evaluate_operand_def Let_def split: if_splits option.splits)

lemma evaluate_dom_mono:
  assumes "dom s \<subseteq> dom s'" and "evaluate e s = Inr v"
  shows "\<exists>v'. evaluate e s' = Inr v'"
proof -
  let ?x = "re_sub_ws (strip e)"
  show ?thesis
  proof (cases "re_match_number ?x")
    case True
    with assms(2) show ?thesis by (simp add: evaluate_def Let_def)
  next
    case num: False
    show ?thesis
    proof (cases "s' ?x")
      case (Some w)
      with num show ?thesis by (simp add: evaluate_def Let_def)
    next
      case None
      with assms(1) have sx: "s ?x = None" by (auto simp: dom_def)
      show ?thesis
      proof (cases "re_match_binary (CHR ''+'') ?x")
        case (Some g)
        obtain g1 g2 where g: "g = (g1, g2)" by (cases g)
        from assms(2) num sx Some g
        obtain a b where "evaluate_operand (strip g1) s = Inr a" "evaluate_operand (strip g2) s = Inr b"
          by (auto simp: evaluate_def Let_def combine_Inr)
        with evaluate_operand_dom_mono [OF assms(1)]
        obtain a' b' where "evaluate_operand (strip g1) s' = Inr a'" "evaluate_operand (strip g2) s' = Inr b'"
          by blast
        with num None Some g show ?thesis
          by (simp add: evaluate_def Let_def combine_def)
      next
        case plus: None
        show ?thesis
        proof (cases "re_match_binary (CHR ''-'') ?x")
          case (Some g)
          obtain g1 g2 where g: "g = (g1, g2)" by (cases g)
          from assms(2) num sx Some g plus
          obtain a b where "evaluate_operand (strip g1) s = Inr a" "evaluate_operand (strip g2) s = Inr b"
            by (auto simp: evaluate_def Let_def combine_Inr)
          with evaluate_operand_dom_mono [OF assms(1)]
          obtain a' b' where "evaluate_operand (strip g1) s' = Inr a'" "evaluate_operand (strip g2) s' = Inr b'"
            by blast
          with num None Some g plus show ?thesis
            by (simp add: evaluate_def Let_def combine_def)
        next
          case None
          with assms(2) num sx plus show ?thesis
            by (simp add: evaluate_def Let_def)
        qed
      qed
    qed
  qed
qed

lemma evaluate_literal:
  assumes "number_body (re_sub_ws (strip e))"
  shows "evaluate e s = parse_c_value (re_sub_ws (strip e))"
proof -
  from assms have "re_match_number (re_sub_ws (strip e))"
    unfolding re_match_number_def by (rule disjI1)
  then show ?thesis
    unfolding evaluate_def Let_def by (simp only: if_True)
qed

lemma evaluate_hex_literal:
  assumes "re_sub_ws (strip e) = ''0x'' @ h" and "h \<noteq> []" and "list_all re_hex h"
  shows "evaluate e s = Inr (base_value 16 h)"
proof -
  have "number_body (''0x'' @ h)"
    unfolding number_body_def using assms(2,3) by simp
  then have "evaluate e s = parse_c_value (''0x'' @ h)"
    using evaluate_literal [of e s] unfolding assms(1) by blast
  with parse_hex_literal [OF assms(2,3)] show ?thesis
    by (rule trans [OF _ _, rotated])
qed

lemma evaluate_decimal_literal:
  assumes "re_sub_ws (strip e) = d" and "d \<noteq> []" and "list_all re_digit d"
    and "length d \<le> int_max_str_digits"
  shows "evaluate e s = Inr (base_value 10 d)"
proof -
  have "number_body d"
    unfolding number_body_def using assms(2,3) by blast
  then have "evaluate e s = parse_c_value d"
    using evaluate_literal [of e s] unfolding assms(1) by blast
  with parse_decimal_literal [OF assms(2,3,4)] show ?thesis
    by (rule trans [OF _ _, rotated])
qed

lemma evaluate_long_decimal_literal:
  assumes "re_sub_ws (strip e) = d" and "int_max_str_digits < length d"
    and "list_all re_digit d"
  shows "evaluate e s = Inl (InvalidLiteral d)"
proof -
  from assms(2) have "d \<noteq> []" by auto
  then have "number_body d"
    unfolding number_body_def using assms(3) by blast
  then have "evaluate e s = parse_c_value d"
    using evaluate_literal [of e s] unfolding assms(1) by blast
  with parse_long_decimal_literal [OF assms(2,3)] show ?thesis
    by (rule trans [OF _ _, rotated])
qed

lemma evaluate_sixteen:
  "evaluate ''0x10'' s = Inr 16" and "evaluate ''16'' s = Inr 16"
proof -
  have a: "re_sub_ws (strip ''0x10'') = ''0x'' @ ''10''" "list_all re_hex ''10''"
    "base_value 16 ''10'' = 16"
    by code_simp+
  have b: "re_sub_ws (strip ''16'') = ''16''" "list_all re_digit ''16''"
    "base_value 10 ''16'' = 16"
    by code_simp+
  from evaluate_hex_literal [OF a(1) _ a(2), of s] a(3) show "evaluate ''0x10'' s = Inr 16"
    by simp
  from evaluate_decimal_literal [OF b(1) _ b(2), of s] b(3) show "evaluate ''16'' s = Inr 16"
    by (simp add: int_max_str_digits_def)
qed

lemma evaluate_operand_fails:
  assumes "evaluate_operand x s = Inl err"
  shows "(\<exists>d\<in>set (operand_reads x). d \<notin> dom s) \<or> (\<exists>t. err = InvalidLiteral t)"
proof (cases "re_match_number (strip x)")
  case True
  with assms have "parse_c_value (strip x) = Inl err"
    unfolding evaluate_operand_def Let_def by (simp only: if_True)
  with re_match_number_error [OF True] show ?thesis by simp
next
  case False
  with assms have "s (strip x) = None"
    unfolding evaluate_operand_def Let_def by (simp only: if_False split: option.splits) simp
  with False show ?thesis
    unfolding operand_reads_def Let_def by (simp add: dom_def)
qed

lemma combine_Inl:
  "combine f l r = Inl err \<Longrightarrow> l = Inl err \<or> (\<exists>a. l = Inr a \<and> r = Inl err)"
  unfolding combine_def by (cases l; cases r) simp_all

lemma evaluate_fails_reads:
  assumes "evaluate e s = Inl err"
  shows "(\<exists>d\<in>set (reads e s). d \<notin> dom s) \<or> (\<exists>t. err = InvalidLiteral t)"
proof (cases "re_match_number (re_sub_ws (strip e))")
  case True
  with assms have "parse_c_value (re_sub_ws (strip e)) = Inl err"
    unfolding evaluate_def Let_def by (simp only: if_True)
  from re_match_number_error [OF True this] show ?thesis ..
next
  case num: False
  let ?x = "re_sub_ws (strip e)"
  have none: "s ?x = None"
  proof (cases "s ?x")
    case None
    then show ?thesis .
  next
    case (Some v)
    with num have "evaluate e s = Inr v"
      unfolding evaluate_def Let_def by simp
    with assms show ?thesis by simp
  qed
  have ops: "(\<exists>d\<in>set (operand_reads (strip g1) @ operand_reads (strip g2)). d \<notin> dom s)
      \<or> (\<exists>t. err = InvalidLiteral t)"
    if "combine f (evaluate_operand (strip g1) s) (evaluate_operand (strip g2) s) = Inl err"
    for f g1 g2
    using combine_Inl [OF that] evaluate_operand_fails [of "strip g1" s err]
      evaluate_operand_fails [of "strip g2" s err]
    by auto
  show ?thesis
  proof (cases "re_match_binary (CHR ''+'') ?x")
    case (Some g)
    obtain g1 g2 where g: "g = (g1, g2)" by (cases g)
    from assms num none Some g
    have "combine (+) (evaluate_operand (strip g1) s) (evaluate_operand (strip g2) s) = Inl err"
      unfolding evaluate_def Let_def by simp
    from ops [OF this] num none Some g show ?thesis
      unfolding reads_def Let_def by simp
  next
    case plus: None
    show ?thesis
    proof (cases "re_match_binary (CHR ''-'') ?x")
      case (Some g)
      obtain g1 g2 where g: "g = (g1, g2)" by (cases g)
      from assms num none plus Some g
      have "combine (-) (evaluate_operand (strip g1) s) (evaluate_operand (strip g2) s) = Inl err"
        unfolding evaluate_def Let_def by simp
      from ops [OF this] num none plus Some g show ?thesis
        unfolding reads_def Let_def by simp
    next
      case None
      with num none plus show ?thesis
        unfolding reads_def Let_def by (simp add: dom_def)
    qed
  qed
qed

lemma evaluate_ok_iff_reads:
  "(\<exists>v. evaluate e s = Inr v)
     \<longleftrightarrow> set (reads e s) \<subseteq> dom s \<and> (\<forall>t. evaluate e s \<noteq> Inl (InvalidLiteral t))"
proof
  assume "\<exists>v. evaluate e s = Inr v"
  then show "set (reads e s) \<subseteq> dom s \<and> (\<forall>t. evaluate e s \<noteq> Inl (InvalidLiteral t))"
    by (auto dest: evaluate_reads)
next
  assume r: "set (reads e s) \<subseteq> dom s \<and> (\<forall>t. evaluate e s \<noteq> Inl (InvalidLiteral t))"
  show "\<exists>v. evaluate e s = Inr v"
  proof (cases "evaluate e s")
    case (Inl err)
    from evaluate_fails_reads [OF this] r Inl show ?thesis by blast
  next
    case (Inr v)
    then show ?thesis by blast
  qed
qed

section \<open>Invariants of the loop\<close>

lemma attempt_fail:
  "evaluate e sy = Inl err \<Longrightarrow> attempt (n, e) (sy, ys, still) = (sy, ys, still @ [(n, e)])"
  by simp

lemma attempt_ok:
  "evaluate e sy = Inr v \<Longrightarrow>
     attempt (n, e) (sy, ys, still) = (sy(n \<mapsto> v), ys @ [(n, v)], still)"
  by simp

lemma fold_attempt_Cons_fail:
  "evaluate e sy = Inl err \<Longrightarrow>
     fold attempt ((n, e) # us) (sy, ys, still) = fold attempt us (sy, ys, still @ [(n, e)])"
  by simp

lemma fold_attempt_Cons_ok:
  "evaluate e sy = Inr v \<Longrightarrow>
     fold attempt ((n, e) # us) (sy, ys, still)
       = fold attempt us (sy(n \<mapsto> v), ys @ [(n, v)], still)"
  by simp

lemma fold_attempt_inv:
  assumes "fold attempt us (sy, ys, still) = (sy', ys', still')"
    and "justified rs ys" and "sy = symtab ys"
  shows "\<exists>rs'. justified rs' ys' \<and> sy' = symtab ys'
           \<and> mset rs' + mset still' = mset rs + mset still + mset us
           \<and> prefix ys ys' \<and> prefix still still' \<and> prefix rs rs'"
  using assms
proof (induction us arbitrary: sy ys still rs)
  case Nil
  then show ?case by auto
next
  case (Cons u us)
  obtain n e where u: "u = (n, e)" by (cases u)
  show ?case
  proof (cases "evaluate e sy")
    case (Inl err)
    with Cons.prems(1) u
    have f: "fold attempt us (sy, ys, still @ [(n, e)]) = (sy', ys', still')" by simp
    from Cons.IH [OF f Cons.prems(2,3)]
    obtain rs' where r: "justified rs' ys'" "sy' = symtab ys'"
      "mset rs' + mset still' = mset rs + mset (still @ [(n, e)]) + mset us"
      "prefix ys ys'" "prefix (still @ [(n, e)]) still'" "prefix rs rs'"
      by blast
    from r(5) have "prefix still still'" by (rule append_prefixD)
    with r u show ?thesis by auto
  next
    case (Inr v)
    with Cons.prems(1) u
    have f: "fold attempt us (sy(n \<mapsto> v), ys @ [(n, v)], still) = (sy', ys', still')" by simp
    from Inr Cons.prems(2,3) have j: "justified (rs @ [(n, e)]) (ys @ [(n, v)])"
      by (auto intro: justified.snoc)
    from Cons.prems(3) have s: "sy(n \<mapsto> v) = symtab (ys @ [(n, v)])" by simp
    from Cons.IH [OF f j s]
    obtain rs' where r: "justified rs' ys'" "sy' = symtab ys'"
      "mset rs' + mset still' = mset (rs @ [(n, e)]) + mset still + mset us"
      "prefix (ys @ [(n, v)]) ys'" "prefix still still'" "prefix (rs @ [(n, e)]) rs'"
      by blast
    from r(4) have "prefix ys ys'" by (rule append_prefixD)
    moreover from r(6) have "prefix rs rs'" by (rule append_prefixD)
    ultimately show ?thesis using r u by auto
  qed
qed

lemma fold_attempt_prefix:
  assumes "fold attempt us (sy, ys, still) = (sy', ys', still')"
  shows "prefix ys ys' \<and> prefix still still' \<and> dom sy \<subseteq> dom sy'"
  using assms
proof (induction us arbitrary: sy ys still)
  case Nil
  then show ?case by auto
next
  case (Cons u us)
  obtain n e where u: "u = (n, e)" by (cases u)
  show ?case
  proof (cases "evaluate e sy")
    case (Inl err)
    with Cons.prems u
    have f: "fold attempt us (sy, ys, still @ [(n, e)]) = (sy', ys', still')" by simp
    from Cons.IH [OF f] show ?thesis by (auto dest: append_prefixD)
  next
    case (Inr v)
    with Cons.prems u
    have f: "fold attempt us (sy(n \<mapsto> v), ys @ [(n, v)], still) = (sy', ys', still')" by simp
    have d: "dom sy \<subseteq> dom (sy(n \<mapsto> v))" by auto
    from Cons.IH [OF f] have "prefix (ys @ [(n, v)]) ys'" "prefix still still'"
      "dom (sy(n \<mapsto> v)) \<subseteq> dom sy'" by blast+
    with d show ?thesis by (blast dest: append_prefixD)
  qed
qed

lemma fold_attempt_stuck:
  assumes "fold attempt us (sy, ys, still) = (sy', ys', still')"
    and "length still' = length still + length us"
  shows "sy' = sy \<and> ys' = ys \<and> still' = still @ us \<and> (\<forall>r\<in>set us. isl (evaluate (snd r) sy))"
  using assms
proof (induction us arbitrary: still)
  case Nil
  then show ?case by simp
next
  case (Cons u us)
  obtain n e where u: "u = (n, e)" by (cases u)
  show ?case
  proof (cases "evaluate e sy")
    case (Inl err)
    with Cons.prems(1) u
    have f: "fold attempt us (sy, ys, still @ [(n, e)]) = (sy', ys', still')" by simp
    from Cons.prems(2) have "length still' = length (still @ [(n, e)]) + length us" by simp
    from Cons.IH [OF f this] Inl u show ?thesis by simp
  next
    case (Inr v)
    with Cons.prems(1) u
    have f: "fold attempt us (sy(n \<mapsto> v), ys @ [(n, v)], still) = (sy', ys', still')" by simp
    from fold_attempt_length [OF f] fold_attempt_yielded_mono [OF f] Cons.prems(2)
    show ?thesis by simp
  qed
qed

lemma inv_initial: "inv ds (initial ds)"
  by (auto simp: inv_def initial_def intro: justified.nil)

lemma inv_one_pass:
  assumes "inv ds st"
  shows "inv ds (one_pass st)"
proof -
  obtain sy ys still where
    f: "fold attempt (unresolved st) (symbols st, yielded st, []) = (sy, ys, still)"
    by (cases "fold attempt (unresolved st) (symbols st, yielded st, [])")
  then have p: "one_pass st = \<lparr>symbols = sy, unresolved = still,
      resolved_count = length (unresolved st), yielded = ys\<rparr>"
    by (simp add: one_pass_def)
  from assms obtain rs where rs: "justified rs (yielded st)"
    "mset rs + mset (unresolved st) = mset ds" and s: "symbols st = symtab (yielded st)"
    by (auto simp: inv_def)
  from fold_attempt_inv [OF f rs(1) s]
  obtain rs' where r: "justified rs' ys" "sy = symtab ys"
    "mset rs' + mset still = mset rs + mset [] + mset (unresolved st)"
    by blast
  have "\<forall>r\<in>set still. isl (evaluate (snd r) sy)" if "length still = length (unresolved st)"
    using fold_attempt_stuck [OF f] that by simp
  with r rs(2) show ?thesis
    unfolding p inv_def by auto
qed

lemma inv_while_loop: "inv ds st \<Longrightarrow> inv ds (while_loop st)"
proof (induction st rule: while_loop.induct)
  case (1 st)
  show ?case
  proof (cases "loop_cond st")
    case True
    with "1.IH" inv_one_pass [OF "1.prems"] show ?thesis
      by (simp add: while_loop.simps [of st])
  next
    case False
    with "1.prems" show ?thesis by (simp add: while_loop.simps [of st])
  qed
qed

lemma while_loop_exit: "\<not> loop_cond (while_loop st)"
proof (induction st rule: while_loop.induct)
  case (1 st)
  then show ?case by (cases "loop_cond st") (simp_all add: while_loop.simps [of st])
qed

lemma while_loop_funpow: "while_loop st = (one_pass ^^ passes_run st) st"
proof (induction st rule: while_loop.induct)
  case (1 st)
  show ?case
  proof (cases "loop_cond st")
    case True
    with "1.IH" show ?thesis
      by (simp add: while_loop.simps [of st] passes_run.simps [of st] funpow_swap1)
  next
    case False
    then show ?thesis by (simp add: while_loop.simps [of st] passes_run.simps [of st])
  qed
qed

lemma passes_run_le: "passes_run st \<le> length (unresolved st)"
proof (induction st rule: while_loop.induct)
  case (1 st)
  show ?case
  proof (cases "loop_cond st")
    case True
    note c = this
    show ?thesis
    proof (cases "loop_cond (one_pass st)")
      case True
      then have "length (unresolved (one_pass st)) \<noteq> length (unresolved st)"
        by (simp add: loop_cond_def)
      with one_pass_length [of st] have "length (unresolved (one_pass st)) < length (unresolved st)"
        by simp
      with "1.IH" [OF c] c show ?thesis by (simp add: passes_run.simps [of st])
    next
      case False
      then have "passes_run (one_pass st) = 0"
        by (simp add: passes_run.simps [of "one_pass st"])
      moreover from c have "Suc 0 \<le> length (unresolved st)"
        by (cases "unresolved st") (simp_all add: loop_cond_def)
      ultimately show ?thesis
        using c by (simp add: passes_run.simps [of st])
    qed
  next
    case False
    then show ?thesis by (simp add: passes_run.simps [of st])
  qed
qed

lemma resolve_state_inv: "inv ds (resolve_state ds)"
  unfolding resolve_state_def by (rule inv_while_loop [OF inv_initial])

lemma resolve_state_stuck:
  "\<forall>r\<in>set (unresolved (resolve_state ds)). isl (evaluate (snd r) (symbols (resolve_state ds)))"
proof -
  have "\<not> loop_cond (resolve_state ds)"
    unfolding resolve_state_def by (rule while_loop_exit)
  then have "unresolved (resolve_state ds) = []
      \<or> length (unresolved (resolve_state ds)) = resolved_count (resolve_state ds)"
    by (auto simp: loop_cond_def)
  with resolve_state_inv [of ds] show ?thesis
    by (auto simp: inv_def)
qed

lemma justified_length: "justified rs ys \<Longrightarrow> length rs = length ys"
  by (induction rule: justified.induct) simp_all

lemma justified_names: "justified rs ys \<Longrightarrow> map fst rs = map fst ys"
  by (induction rule: justified.induct) simp_all

lemma justified_nth:
  assumes "justified rs ys" and "i < length ys"
  shows "fst (rs ! i) = fst (ys ! i)
     \<and> evaluate (snd (rs ! i)) (symtab (take i ys)) = Inr (snd (ys ! i))"
  using assms
proof (induction arbitrary: i rule: justified.induct)
  case nil
  then show ?case by simp
next
  case (snoc rs ys e v n)
  from snoc.hyps(1) have l: "length rs = length ys" by (rule justified_length)
  show ?case
  proof (cases "i < length ys")
    case True
    with snoc.IH [OF True] l show ?thesis by (simp add: nth_append)
  next
    case False
    with snoc.prems have "i = length ys" by simp
    with snoc.hyps(2) l show ?thesis by (simp add: nth_append)
  qed
qed

lemma justified_take: "justified rs ys \<Longrightarrow> justified (take i rs) (take i ys)"
proof (induction rule: justified.induct)
  case nil
  then show ?case by (simp add: justified.nil)
next
  case (snoc rs ys e v n)
  from snoc.hyps(1) have l: "length rs = length ys" by (rule justified_length)
  show ?case
  proof (cases "i \<le> length ys")
    case True
    with snoc.IH l show ?thesis by simp
  next
    case False
    with l have "take i (rs @ [(n, e)]) = rs @ [(n, e)]" "take i (ys @ [(n, v)]) = ys @ [(n, v)]"
      by simp_all
    with snoc.hyps show ?thesis by (simp add: justified.snoc)
  qed
qed

lemma derivable_mono:
  assumes "set ds \<subseteq> set ds'"
  shows "derivable ds \<subseteq> derivable ds'"
proof
  fix n
  assume "n \<in> derivable ds"
  then show "n \<in> derivable ds'"
  proof (induction rule: derivable.induct)
    case (step n e s v)
    from step.hyps(1) assms have "(n, e) \<in> set ds'" by blast
    moreover from step.IH have "\<forall>d\<in>dom s. d \<in> derivable ds'" by blast
    ultimately show ?case using step.hyps(2) by (rule derivable.step)
  qed
qed

lemma justified_derivable: "justified rs ys \<Longrightarrow> fst ` set ys \<subseteq> derivable rs"
proof (induction rule: justified.induct)
  case nil
  then show ?case by simp
next
  case (snoc rs ys e v n)
  have m: "derivable rs \<subseteq> derivable (rs @ [(n, e)])"
    by (rule derivable_mono) auto
  with snoc.IH have old: "fst ` set ys \<subseteq> derivable (rs @ [(n, e)])" by blast
  then have "\<forall>d\<in>dom (symtab ys). d \<in> derivable (rs @ [(n, e)])"
    by (auto simp: dom_symtab)
  with snoc.hyps(2) have "n \<in> derivable (rs @ [(n, e)])"
    by (intro derivable.step [where e = e and s = "symtab ys"]) simp_all
  with old show ?case by simp
qed

lemma final_facts:
  obtains rs where "justified rs (resolve_dependencies ds)"
    and "mset rs + mset (unresolved (resolve_state ds)) = mset ds"
    and "symbols (resolve_state ds) = symtab (resolve_dependencies ds)"
  using resolve_state_inv [of ds] unfolding inv_def resolve_dependencies_def by blast

lemma set_of_partition:
  assumes "mset rs + mset us = mset ds"
  shows "set ds = set rs \<union> set us"
proof -
  from assms have "set_mset (mset rs + mset us) = set_mset (mset ds)" by simp
  then show ?thesis by simp
qed

lemma derivable_final:
  "derivable ds = dom (symbols (resolve_state ds))"
proof -
  obtain rs where rs: "justified rs (resolve_dependencies ds)"
    "mset rs + mset (unresolved (resolve_state ds)) = mset ds"
    "symbols (resolve_state ds) = symtab (resolve_dependencies ds)"
    by (rule final_facts)
  from rs(2) have part: "set ds = set rs \<union> set (unresolved (resolve_state ds))"
    by (rule set_of_partition)
  have names: "fst ` set rs = dom (symbols (resolve_state ds))"
    using justified_names [OF rs(1)] rs(3)
    by (metis dom_symtab list.set_map)
  show ?thesis
  proof
    show "derivable ds \<subseteq> dom (symbols (resolve_state ds))"
    proof
      fix n
      assume "n \<in> derivable ds"
      then show "n \<in> dom (symbols (resolve_state ds))"
      proof (induction rule: derivable.induct)
        case (step n e s v)
        from step.IH have "dom s \<subseteq> dom (symbols (resolve_state ds))" by blast
        from evaluate_dom_mono [OF this step.hyps(2)]
        obtain v' where "evaluate e (symbols (resolve_state ds)) = Inr v'" ..
        with resolve_state_stuck [of ds]
        have "(n, e) \<notin> set (unresolved (resolve_state ds))" by force
        with step.hyps(1) part have "(n, e) \<in> set rs" by blast
        then have "n \<in> fst ` set rs" by force
        with names show ?case by simp
      qed
    qed
  next
    have "fst ` set (resolve_dependencies ds) \<subseteq> derivable rs"
      by (rule justified_derivable [OF rs(1)])
    also from part have "derivable rs \<subseteq> derivable ds"
      by (intro derivable_mono) simp
    finally show "dom (symbols (resolve_state ds)) \<subseteq> derivable ds"
      by (simp add: rs(3) dom_symtab)
  qed
qed

lemma resolvable_final:
  "resolvable ds e \<longleftrightarrow> (\<exists>v. evaluate e (symbols (resolve_state ds)) = Inr v)"
proof
  assume "resolvable ds e"
  then obtain s v where "dom s \<subseteq> derivable ds" "evaluate e s = Inr v"
    by (auto simp: resolvable_def)
  then show "\<exists>v. evaluate e (symbols (resolve_state ds)) = Inr v"
    using evaluate_dom_mono [of s "symbols (resolve_state ds)" e v]
    by (simp add: derivable_final)
next
  assume "\<exists>v. evaluate e (symbols (resolve_state ds)) = Inr v"
  then show "resolvable ds e"
    unfolding resolvable_def using derivable_final [of ds] by blast
qed

lemma prefix_dom_symtab: "prefix xs ys \<Longrightarrow> dom (symtab xs) \<subseteq> dom (symtab ys)"
  by (auto simp: dom_symtab dest: set_mono_prefix)

lemma emitted_resolvable:
  assumes "justified rs (resolve_dependencies ds)"
    and "symbols (resolve_state ds) = symtab (resolve_dependencies ds)"
    and "r \<in> set rs"
  shows "resolvable ds (snd r)"
proof -
  let ?out = "resolve_dependencies ds"
  from assms(3) obtain i where i: "i < length rs" "rs ! i = r"
    by (auto simp: in_set_conv_nth)
  with justified_length [OF assms(1)] have "i < length ?out" by simp
  from justified_nth [OF assms(1) this] i
  have e: "evaluate (snd r) (symtab (take i ?out)) = Inr (snd (?out ! i))" by simp
  have "dom (symtab (take i ?out)) \<subseteq> dom (symbols (resolve_state ds))"
    unfolding assms(2) by (rule prefix_dom_symtab) (rule take_is_prefix)
  from evaluate_dom_mono [OF this e] show ?thesis
    by (simp add: resolvable_final)
qed

section \<open>The order of the output\<close>

text \<open>
  Claim C1. For every input \<open>ds\<close>, the pairs yielded come from records \<open>rs\<close> of the
  input, one record per pair and in the order of the output, and the records reported
  are the rest of the input. The pair at position \<open>i\<close> carries the name of its record and
  the value of the record's expression against the table of the pairs yielded before
  it; every name that this evaluation reads has been yielded before position \<open>i\<close>; and
  every name yielded before position \<open>i\<close> is derivable from the records resolved before
  position \<open>i\<close> alone, so what a pair depends on, directly or through other names, has
  been yielded before it. A record of the input is left unresolved exactly when its
  expression is not resolvable from the input; such a record is not among the records
  that produced the output, and the line \<^verbatim>\<open>Error: Could not resolve NAME = EXPR\<close> with
  its name and its expression is printed to the error stream. The error stream holds
  these lines and nothing else, one line per record left unresolved, in the order of
  the working set.
\<close>

theorem yielded_after_dependencies:
  "\<exists>rs. length rs = length (resolve_dependencies ds)
      \<and> mset rs + mset (unresolved (resolve_state ds)) = mset ds
      \<and> (\<forall>i<length rs.
            fst (resolve_dependencies ds ! i) = fst (rs ! i)
          \<and> evaluate (snd (rs ! i)) (symtab (take i (resolve_dependencies ds)))
              = Inr (snd (resolve_dependencies ds ! i))
          \<and> set (reads (snd (rs ! i)) (symtab (take i (resolve_dependencies ds))))
              \<subseteq> fst ` set (take i (resolve_dependencies ds))
          \<and> fst ` set (take i (resolve_dependencies ds)) \<subseteq> derivable (take i rs))
      \<and> (\<forall>r\<in>set ds. \<not> resolvable ds (snd r) \<longleftrightarrow> r \<in> set (unresolved (resolve_state ds)))
      \<and> (\<forall>r\<in>set (unresolved (resolve_state ds)).
            r \<notin> set rs
          \<and> ''Error: Could not resolve '' @ fst r @ '' = '' @ snd r \<in> set (resolve_stderr ds))
      \<and> resolve_stderr ds
          = map (\<lambda>r. ''Error: Could not resolve '' @ fst r @ '' = '' @ snd r)
              (unresolved (resolve_state ds))"
proof -
  let ?out = "resolve_dependencies ds" and ?F = "resolve_state ds"
  obtain rs where rs: "justified rs ?out" "mset rs + mset (unresolved ?F) = mset ds"
    "symbols ?F = symtab ?out"
    by (rule final_facts)
  from rs(2) have part: "set ds = set rs \<union> set (unresolved ?F)"
    by (rule set_of_partition)
  have len: "length rs = length ?out" by (rule justified_length [OF rs(1)])
  have stuck: "\<not> resolvable ds (snd r)" if "r \<in> set (unresolved ?F)" for r
    using resolve_state_stuck [of ds] that by (auto simp: resolvable_final)
  have emitted: "resolvable ds (snd r)" if "r \<in> set rs" for r
    using emitted_resolvable [OF rs(1) rs(3) that] .
  have pos: "fst (?out ! i) = fst (rs ! i)
      \<and> evaluate (snd (rs ! i)) (symtab (take i ?out)) = Inr (snd (?out ! i))
      \<and> set (reads (snd (rs ! i)) (symtab (take i ?out))) \<subseteq> fst ` set (take i ?out)
      \<and> fst ` set (take i ?out) \<subseteq> derivable (take i rs)" if "i < length rs" for i
  proof -
    from that len have i: "i < length ?out" by simp
    from justified_nth [OF rs(1) i]
    have n: "fst (rs ! i) = fst (?out ! i)"
      and e: "evaluate (snd (rs ! i)) (symtab (take i ?out)) = Inr (snd (?out ! i))"
      by simp_all
    from evaluate_reads [OF e]
    have "set (reads (snd (rs ! i)) (symtab (take i ?out))) \<subseteq> fst ` set (take i ?out)"
      by (simp add: dom_symtab)
    moreover have "fst ` set (take i ?out) \<subseteq> derivable (take i rs)"
      by (rule justified_derivable [OF justified_take [OF rs(1)]])
    ultimately show ?thesis using n e by simp
  qed
  have rep: "\<not> resolvable ds (snd r) \<longleftrightarrow> r \<in> set (unresolved ?F)" if "r \<in> set ds" for r
    using that part stuck emitted by blast
  have lines: "resolve_stderr ds
      = map (\<lambda>r. ''Error: Could not resolve '' @ fst r @ '' = '' @ snd r) (unresolved ?F)"
    unfolding resolve_stderr_def error_line_def ..
  have err: "r \<notin> set rs
      \<and> ''Error: Could not resolve '' @ fst r @ '' = '' @ snd r \<in> set (resolve_stderr ds)"
    if "r \<in> set (unresolved ?F)" for r
  proof
    from that stuck [of r] emitted [of r] show "r \<notin> set rs"
      by blast
    from that show "''Error: Could not resolve '' @ fst r @ '' = '' @ snd r
        \<in> set (resolve_stderr ds)"
      unfolding lines set_map by (rule imageI)
  qed
  from len rs(2) pos rep err lines show ?thesis by blast
qed

theorem yielded_after_dependencies_witness:
  "resolve_dependencies [(''B'', ''(A + 0x5)''), (''A'', ''0x10''), (''X'', ''(Y + 1)'')]
     = [(''A'', 16), (''B'', 21)]
   \<and> (\<exists>rs. length rs = 2
         \<and> mset rs + mset [(''X'', ''(Y + 1)'')]
             = mset [(''B'', ''(A + 0x5)''), (''A'', ''0x10''), (''X'', ''(Y + 1)'')]
         \<and> fst (rs ! 1) = ''B''
         \<and> evaluate (snd (rs ! 1)) (symtab [(''A'', 16)]) = Inr 21
         \<and> set (reads (snd (rs ! 1)) (symtab [(''A'', 16)])) \<subseteq> {''A''}
         \<and> {''A''} \<subseteq> derivable (take 1 rs))
   \<and> \<not> resolvable [(''B'', ''(A + 0x5)''), (''A'', ''0x10''), (''X'', ''(Y + 1)'')] ''(Y + 1)''
   \<and> ''Error: Could not resolve X = (Y + 1)''
       \<in> set (resolve_stderr [(''B'', ''(A + 0x5)''), (''A'', ''0x10''), (''X'', ''(Y + 1)'')])
   \<and> resolve_stderr [(''B'', ''(A + 0x5)''), (''A'', ''0x10''), (''X'', ''(Y + 1)'')]
       = [''Error: Could not resolve X = (Y + 1)'']"
proof -
  let ?ds = "[(''B'', ''(A + 0x5)''), (''A'', ''0x10''), (''X'', ''(Y + 1)'')]"
  have out: "resolve_dependencies ?ds = [(''A'', 16), (''B'', 21)]"
    by code_simp
  have un: "unresolved (resolve_state ?ds) = [(''X'', ''(Y + 1)'')]"
    by code_simp
  from yielded_after_dependencies [of ?ds]
  obtain rs where rs: "length rs = length (resolve_dependencies ?ds)"
    "mset rs + mset (unresolved (resolve_state ?ds)) = mset ?ds"
    "\<forall>i<length rs.
            fst (resolve_dependencies ?ds ! i) = fst (rs ! i)
          \<and> evaluate (snd (rs ! i)) (symtab (take i (resolve_dependencies ?ds)))
              = Inr (snd (resolve_dependencies ?ds ! i))
          \<and> set (reads (snd (rs ! i)) (symtab (take i (resolve_dependencies ?ds))))
              \<subseteq> fst ` set (take i (resolve_dependencies ?ds))
          \<and> fst ` set (take i (resolve_dependencies ?ds)) \<subseteq> derivable (take i rs)"
    "\<forall>r\<in>set ?ds. \<not> resolvable ?ds (snd r) \<longleftrightarrow> r \<in> set (unresolved (resolve_state ?ds))"
    "\<forall>r\<in>set (unresolved (resolve_state ?ds)).
            r \<notin> set rs
          \<and> ''Error: Could not resolve '' @ fst r @ '' = '' @ snd r \<in> set (resolve_stderr ?ds)"
    "resolve_stderr ?ds
          = map (\<lambda>r. ''Error: Could not resolve '' @ fst r @ '' = '' @ snd r)
              (unresolved (resolve_state ?ds))"
    by blast
  from rs(1) have l: "length rs = 2" by (simp add: out)
  with rs(3) have
    "fst (resolve_dependencies ?ds ! 1) = fst (rs ! 1)
     \<and> evaluate (snd (rs ! 1)) (symtab (take 1 (resolve_dependencies ?ds)))
              = Inr (snd (resolve_dependencies ?ds ! 1))
     \<and> set (reads (snd (rs ! 1)) (symtab (take 1 (resolve_dependencies ?ds))))
              \<subseteq> fst ` set (take 1 (resolve_dependencies ?ds))
     \<and> fst ` set (take 1 (resolve_dependencies ?ds)) \<subseteq> derivable (take 1 rs)"
    by simp
  then have one: "fst (rs ! 1) = ''B''
     \<and> evaluate (snd (rs ! 1)) (symtab [(''A'', 16)]) = Inr 21
     \<and> set (reads (snd (rs ! 1)) (symtab [(''A'', 16)])) \<subseteq> {''A''}
     \<and> {''A''} \<subseteq> derivable (take 1 rs)"
    unfolding out by simp
  from rs(4) have nr: "\<not> resolvable ?ds ''(Y + 1)''"
    unfolding un by simp
  from rs(5) have er: "''Error: Could not resolve X = (Y + 1)'' \<in> set (resolve_stderr ?ds)"
    unfolding un by simp
  from rs(6) have all: "resolve_stderr ?ds = [''Error: Could not resolve X = (Y + 1)'']"
    unfolding un by simp
  from rs(2) have "mset rs + mset [(''X'', ''(Y + 1)'')] = mset ?ds"
    unfolding un .
  with l one have "\<exists>rs. length rs = 2
         \<and> mset rs + mset [(''X'', ''(Y + 1)'')] = mset ?ds
         \<and> fst (rs ! 1) = ''B''
         \<and> evaluate (snd (rs ! 1)) (symtab [(''A'', 16)]) = Inr 21
         \<and> set (reads (snd (rs ! 1)) (symtab [(''A'', 16)])) \<subseteq> {''A''}
         \<and> {''A''} \<subseteq> derivable (take 1 rs)"
    by blast
  with out nr er all show ?thesis by blast
qed

section \<open>Literals\<close>

text \<open>
  Claim C2. The claim: a bare expression that is \<^verbatim>\<open>0x\<close> or \<^verbatim>\<open>0X\<close> followed by
  hexadecimal digits evaluates to the base-16 value of the digits, and a string of decimal
  digits to its base-10 value. \<open>parse_c_value\<close> accepts both prefixes, line 8, and gives 16
  for \<^verbatim>\<open>0X10\<close>. The pattern of line 20 that guards the call in \<open>evaluate\<close> has the lower
  case \<^verbatim>\<open>0x\<close> only, so \<open>evaluate\<close> never passes \<^verbatim>\<open>0X10\<close> to \<open>parse_c_value\<close>: it is
  not a known symbol and not a parenthesised expression either, and the
  unsupported-expression error of line 43 is raised. A record with this expression is
  never resolved and ends in the error report. For the lower-case prefix, and for decimal
  digits up to the number of digits that the builtin \<^verbatim>\<open>int\<close> accepts, the claim holds:
  lemmas \<open>evaluate_hex_literal\<close>, \<open>evaluate_decimal_literal\<close> and \<open>evaluate_sixteen\<close>
  above.
\<close>

theorem upper_case_hex_prefix_rejected:
  "parse_c_value ''0X10'' = Inr 16
   \<and> evaluate ''0X10'' Map.empty = Inl (Unsupported ''0X10'')
   \<and> resolve_dependencies [(''EVT_A'', ''0X10'')] = []
   \<and> resolve_stderr [(''EVT_A'', ''0X10'')] = [''Error: Could not resolve EVT_A = 0X10'']"
  by code_simp

section \<open>Three defines in any order\<close>

lemma three_orders:
  assumes "mset ds = mset [a, b, c]"
  shows "ds \<in> {[a, b, c], [a, c, b], [b, a, c], [b, c, a], [c, a, b], [c, b, a]}"
proof -
  from assms have "length ds = 3"
    using mset_eq_length by fastforce
  then obtain x y z where ds: "ds = [x, y, z]"
    by (metis (no_types, lifting) length_0_conv length_Suc_conv numeral_3_eq_3)
  from assms show ?thesis
    unfolding ds by (auto simp: add_eq_conv_ex)
qed

text \<open>
  Claim C3. Whatever the order in which the three records \<^verbatim>\<open>A = 0x10\<close>,
  \<^verbatim>\<open>B = (A + 0x5)\<close> and \<^verbatim>\<open>C = (B - A)\<close> are given, the loop ends with the three of them
  yielded, nothing reported, and a symbol table that maps \<open>A\<close> to 16, \<open>B\<close> to 21 and \<open>C\<close>
  to 5. The hypothesis says that \<open>ds\<close> is a permutation of the three records.
\<close>

theorem resolve_three_defines_any_order:
  assumes "mset ds = mset [(''A'', ''0x10''), (''B'', ''(A + 0x5)''), (''C'', ''(B - A)'')]"
  shows "mset (resolve_dependencies ds) = mset [(''A'', 16), (''B'', 21), (''C'', 5)]
     \<and> unresolved (resolve_state ds) = []
     \<and> resolve_stderr ds = []
     \<and> symbols (resolve_state ds) ''A'' = Some 16
     \<and> symbols (resolve_state ds) ''B'' = Some 21
     \<and> symbols (resolve_state ds) ''C'' = Some 5"
proof -
  let ?P = "\<lambda>ds. mset (resolve_dependencies ds) = mset [(''A'', 16), (''B'', 21), (''C'', 5)]
     \<and> unresolved (resolve_state ds) = []
     \<and> resolve_stderr ds = []
     \<and> symbols (resolve_state ds) ''A'' = Some 16
     \<and> symbols (resolve_state ds) ''B'' = Some 21
     \<and> symbols (resolve_state ds) ''C'' = Some 5"
  have 1: "?P [(''A'', ''0x10''), (''B'', ''(A + 0x5)''), (''C'', ''(B - A)'')]"
    by code_simp
  have 2: "?P [(''A'', ''0x10''), (''C'', ''(B - A)''), (''B'', ''(A + 0x5)'')]"
    by code_simp
  have 3: "?P [(''B'', ''(A + 0x5)''), (''A'', ''0x10''), (''C'', ''(B - A)'')]"
    by code_simp
  have 4: "?P [(''B'', ''(A + 0x5)''), (''C'', ''(B - A)''), (''A'', ''0x10'')]"
    by code_simp
  have 5: "?P [(''C'', ''(B - A)''), (''A'', ''0x10''), (''B'', ''(A + 0x5)'')]"
    by code_simp
  have 6: "?P [(''C'', ''(B - A)''), (''B'', ''(A + 0x5)''), (''A'', ''0x10'')]"
    by code_simp
  from three_orders [OF assms] 1 2 3 4 5 6 show ?thesis
    by (elim insertE emptyE) simp_all
qed

theorem resolve_three_defines_any_order_witness:
  "mset [(''C'', ''(B - A)''), (''A'', ''0x10''), (''B'', ''(A + 0x5)'')]
     = mset [(''A'', ''0x10''), (''B'', ''(A + 0x5)''), (''C'', ''(B - A)'')]
   \<and> symbols (resolve_state [(''C'', ''(B - A)''), (''A'', ''0x10''), (''B'', ''(A + 0x5)'')])
        ''C'' = Some 5
   \<and> resolve_stderr [(''C'', ''(B - A)''), (''A'', ''0x10''), (''B'', ''(A + 0x5)'')] = []"
proof -
  have p: "mset [(''C'', ''(B - A)''), (''A'', ''0x10''), (''B'', ''(A + 0x5)'')]
     = mset [(''A'', ''0x10''), (''B'', ''(A + 0x5)''), (''C'', ''(B - A)'')]"
    by simp
  from resolve_three_defines_any_order [OF p] p show ?thesis
    by blast
qed

section \<open>A circular pair\<close>

text \<open>
  Claim C4. For the two records \<^verbatim>\<open>X = (Y + 1)\<close> and \<^verbatim>\<open>Y = (X + 1)\<close> alone, nothing is
  yielded, and when the loop is left both records are printed to the standard error
  stream, one per line, as \<^verbatim>\<open>Error: Could not resolve NAME = EXPRESSION\<close>.
\<close>

theorem circular_pair_reported:
  "resolve_dependencies [(''X'', ''(Y + 1)''), (''Y'', ''(X + 1)'')] = []
   \<and> resolve_stderr [(''X'', ''(Y + 1)''), (''Y'', ''(X + 1)'')]
       = [''Error: Could not resolve X = (Y + 1)'', ''Error: Could not resolve Y = (X + 1)'']"
  by code_simp

section \<open>A failed evaluation\<close>

text \<open>
  Claim C10. \<open>evaluate\<close> and \<open>evaluate_operand\<close> only read the symbol table (lines 24,
  25, 54 and 55), so the model gives them the table and takes back a value or an error,
  nothing else. When the expression of a record of the working set raises a
  \<^verbatim>\<open>ValueError\<close> at its turn in a pass, the attempt leaves the symbol table and the pairs
  yielded as they were and only appends the record, with the same name and the same
  expression, to \<^verbatim>\<open>still_unresolved\<close>; the working set of the next pass begins with
  the records that failed up to that point, this one last.
\<close>

theorem failed_attempt_keeps_state:
  assumes "unresolved st = pre @ (const_name, value_expr) # post"
    and "fold attempt pre (symbols st, yielded st, []) = (syms, ys, still)"
    and "evaluate value_expr syms = Inl err"
  shows "attempt (const_name, value_expr) (syms, ys, still)
           = (syms, ys, still @ [(const_name, value_expr)])
     \<and> fold attempt (pre @ [(const_name, value_expr)]) (symbols st, yielded st, [])
           = (syms, ys, still @ [(const_name, value_expr)])
     \<and> prefix (still @ [(const_name, value_expr)]) (unresolved (one_pass st))"
proof -
  have a: "attempt (const_name, value_expr) (syms, ys, still)
      = (syms, ys, still @ [(const_name, value_expr)])"
    using assms(3) by simp
  have b: "fold attempt (pre @ [(const_name, value_expr)]) (symbols st, yielded st, [])
      = (syms, ys, still @ [(const_name, value_expr)])"
    using assms(2) a by simp
  obtain sy' ys' still' where
    f: "fold attempt post (syms, ys, still @ [(const_name, value_expr)]) = (sy', ys', still')"
    by (cases "fold attempt post (syms, ys, still @ [(const_name, value_expr)])")
  have "fold attempt (unresolved st) (symbols st, yielded st, []) = (sy', ys', still')"
    unfolding assms(1) using assms(2) a f by simp
  then have "unresolved (one_pass st) = still'"
    by (simp add: one_pass_def)
  with fold_attempt_prefix [OF f] a b show ?thesis by simp
qed

theorem failed_attempt_keeps_state_witness:
  "unresolved (initial [(''A'', ''1''), (''X'', ''(Y + 1)''), (''B'', ''2'')])
     = [(''A'', ''1'')] @ (''X'', ''(Y + 1)'') # [(''B'', ''2'')]
   \<and> fold attempt [(''A'', ''1'')] (Map.empty, [], []) = ([''A'' \<mapsto> 1], [(''A'', 1)], [])
   \<and> evaluate ''(Y + 1)'' [''A'' \<mapsto> 1] = Inl (Undefined ''Y'')
   \<and> attempt (''X'', ''(Y + 1)'') ([''A'' \<mapsto> 1], [(''A'', 1)], [])
       = ([''A'' \<mapsto> 1], [(''A'', 1)], [(''X'', ''(Y + 1)'')])
   \<and> prefix [(''X'', ''(Y + 1)'')]
        (unresolved (one_pass (initial [(''A'', ''1''), (''X'', ''(Y + 1)''), (''B'', ''2'')])))"
proof -
  let ?st = "initial [(''A'', ''1''), (''X'', ''(Y + 1)''), (''B'', ''2'')]"
  have u: "unresolved ?st = [(''A'', ''1'')] @ (''X'', ''(Y + 1)'') # [(''B'', ''2'')]"
    by (simp add: initial_def)
  have e1: "evaluate ''1'' Map.empty = Inr 1"
    by code_simp
  have f: "fold attempt [(''A'', ''1'')] (symbols ?st, yielded ?st, [])
       = ([''A'' \<mapsto> 1], [(''A'', 1)], [])"
    by (simp add: initial_def e1)
  have e: "evaluate ''(Y + 1)'' [''A'' \<mapsto> 1] = Inl (Undefined ''Y'')"
    by code_simp
  from failed_attempt_keeps_state [OF u f e] u f e show ?thesis
    by (simp add: initial_def)
qed

section \<open>The passes of the loop\<close>

lemma pass_start_0 [simp]: "pass_start ds 0 = initial ds"
  by (simp add: pass_start_def)

lemma pass_start_Suc [simp]: "pass_start ds (Suc k) = one_pass (pass_start ds k)"
  by (simp add: pass_start_def)

lemma resolve_state_pass_start: "resolve_state ds = pass_start ds (passes_run (initial ds))"
  by (simp add: resolve_state_def pass_start_def while_loop_funpow)

lemma loop_cond_before: "k < passes_run st \<Longrightarrow> loop_cond ((one_pass ^^ k) st)"
proof (induction st arbitrary: k rule: while_loop.induct)
  case (1 st)
  show ?case
  proof (cases "loop_cond st")
    case True
    show ?thesis
    proof (cases k)
      case 0
      with True show ?thesis by simp
    next
      case (Suc k')
      with "1.prems" True have "k' < passes_run (one_pass st)"
        by (simp add: passes_run.simps [of st])
      from "1.IH" [OF True this] Suc show ?thesis
        by (simp add: funpow_swap1)
    qed
  next
    case False
    with "1.prems" show ?thesis by (simp add: passes_run.simps [of st])
  qed
qed

lemma one_pass_unchanged:
  assumes "length (unresolved (one_pass st)) = length (unresolved st)"
  shows "unresolved (one_pass st) = unresolved st \<and> yielded (one_pass st) = yielded st
     \<and> symbols (one_pass st) = symbols st"
proof -
  obtain sy ys still where
    f: "fold attempt (unresolved st) (symbols st, yielded st, []) = (sy, ys, still)"
    by (cases "fold attempt (unresolved st) (symbols st, yielded st, [])")
  then have p: "one_pass st = \<lparr>symbols = sy, unresolved = still,
      resolved_count = length (unresolved st), yielded = ys\<rparr>"
    by (simp add: one_pass_def)
  with assms have "length still = length [] + length (unresolved st)" by simp
  from fold_attempt_stuck [OF f this] p show ?thesis by simp
qed

text \<open>
  Claim C7. For every input the loop ends: the state in which it is left is the state
  after \<open>passes_run (initial ds)\<close> passes, a number that is at most the number of records
  plus one. Every pass that runs starts from a working set that is not empty, and every
  pass but the last one leaves a strictly smaller working set, that is, it resolved a
  record. When the loop is left, the working set is empty or the last pass resolved
  nothing: it left the working set and the pairs yielded as they were.
\<close>

theorem loop_stops_at_fixed_point:
  "resolve_state ds = pass_start ds (passes_run (initial ds))
   \<and> passes_run (initial ds) \<le> length ds + 1
   \<and> (\<forall>k<passes_run (initial ds). unresolved (pass_start ds k) \<noteq> [])
   \<and> (\<forall>k. Suc k < passes_run (initial ds) \<longrightarrow>
         length (unresolved (pass_start ds (Suc k))) < length (unresolved (pass_start ds k)))
   \<and> (unresolved (resolve_state ds) = []
       \<or> (0 < passes_run (initial ds)
           \<and> unresolved (resolve_state ds)
               = unresolved (pass_start ds (passes_run (initial ds) - 1))
           \<and> yielded (resolve_state ds)
               = yielded (pass_start ds (passes_run (initial ds) - 1))))"
proof -
  let ?n = "passes_run (initial ds)"
  have fin: "resolve_state ds = pass_start ds ?n"
    by (rule resolve_state_pass_start)
  have "?n \<le> length (unresolved (initial ds))"
    by (rule passes_run_le)
  then have bound: "?n \<le> length ds + 1"
    by (simp add: initial_def)
  have run: "loop_cond (pass_start ds k)" if "k < ?n" for k
    using loop_cond_before [OF that] by (simp add: pass_start_def)
  have nonempty: "unresolved (pass_start ds k) \<noteq> []" if "k < ?n" for k
    using run [OF that] by (simp add: loop_cond_def)
  have shrink: "length (unresolved (pass_start ds (Suc k))) < length (unresolved (pass_start ds k))"
    if "Suc k < ?n" for k
  proof -
    from run [OF that]
    have "length (unresolved (pass_start ds (Suc k))) \<noteq> length (unresolved (pass_start ds k))"
      by (simp add: loop_cond_def)
    with one_pass_length [of "pass_start ds k"] show ?thesis by simp
  qed
  have "\<not> loop_cond (resolve_state ds)"
    unfolding resolve_state_def by (rule while_loop_exit)
  then have stop: "unresolved (pass_start ds ?n) = []
      \<or> length (unresolved (pass_start ds ?n)) = resolved_count (pass_start ds ?n)"
    unfolding fin by (auto simp: loop_cond_def)
  have last: "unresolved (resolve_state ds) = []
       \<or> (0 < ?n \<and> unresolved (resolve_state ds) = unresolved (pass_start ds (?n - 1))
           \<and> yielded (resolve_state ds) = yielded (pass_start ds (?n - 1)))"
  proof (cases ?n)
    case 0
    with stop have "unresolved (pass_start ds ?n) = []"
      by (auto simp: initial_def)
    then show ?thesis by (simp add: fin [symmetric])
  next
    case (Suc m)
    show ?thesis
    proof (cases "unresolved (pass_start ds ?n) = []")
      case True
      then show ?thesis by (simp add: fin [symmetric])
    next
      case False
      with stop Suc
      have "length (unresolved (one_pass (pass_start ds m))) = length (unresolved (pass_start ds m))"
        by simp
      from one_pass_unchanged [OF this] Suc show ?thesis
        unfolding fin by simp
    qed
  qed
  from fin bound nonempty shrink last show ?thesis by blast
qed

theorem loop_stops_at_fixed_point_witness:
  "passes_run (initial [(''C'', ''(B - A)''), (''B'', ''(A + 0x5)''), (''A'', ''0x10'')]) = 3
   \<and> unresolved (pass_start [(''C'', ''(B - A)''), (''B'', ''(A + 0x5)''), (''A'', ''0x10'')] 2) \<noteq> []
   \<and> length (unresolved (pass_start [(''C'', ''(B - A)''), (''B'', ''(A + 0x5)''), (''A'', ''0x10'')] 2))
       < length (unresolved (pass_start [(''C'', ''(B - A)''), (''B'', ''(A + 0x5)''), (''A'', ''0x10'')] 1))
   \<and> resolve_state [(''C'', ''(B - A)''), (''B'', ''(A + 0x5)''), (''A'', ''0x10'')]
       = pass_start [(''C'', ''(B - A)''), (''B'', ''(A + 0x5)''), (''A'', ''0x10'')] 3
   \<and> passes_run (initial [(''X'', ''(Y + 1)''), (''Y'', ''(X + 1)'')]) = 1
   \<and> unresolved (resolve_state [(''X'', ''(Y + 1)''), (''Y'', ''(X + 1)'')])
       = unresolved (pass_start [(''X'', ''(Y + 1)''), (''Y'', ''(X + 1)'')] 0)"
proof -
  let ?ds = "[(''C'', ''(B - A)''), (''B'', ''(A + 0x5)''), (''A'', ''0x10'')]"
  let ?xy = "[(''X'', ''(Y + 1)''), (''Y'', ''(X + 1)'')]"
  have n: "passes_run (initial ?ds) = 3"
    by code_simp
  have m: "passes_run (initial ?xy) = 1"
    by code_simp
  have u: "unresolved (resolve_state ?xy) \<noteq> []"
    by code_simp
  from loop_stops_at_fixed_point [of ?ds] n
  have a: "resolve_state ?ds = pass_start ?ds 3"
    "\<forall>k<3. unresolved (pass_start ?ds k) \<noteq> []"
    "\<forall>k. Suc k < 3 \<longrightarrow>
         length (unresolved (pass_start ?ds (Suc k))) < length (unresolved (pass_start ?ds k))"
    by simp_all
  from a(2) have a2: "unresolved (pass_start ?ds 2) \<noteq> []" by simp
  from a(3) have "Suc 1 < (3::nat) \<longrightarrow>
         length (unresolved (pass_start ?ds (Suc 1))) < length (unresolved (pass_start ?ds 1))"
    by blast
  then have a3: "length (unresolved (pass_start ?ds 2)) < length (unresolved (pass_start ?ds 1))"
    by (simp add: numeral_2_eq_2)
  from loop_stops_at_fixed_point [of ?xy]
  have "unresolved (resolve_state ?xy) = []
       \<or> (0 < passes_run (initial ?xy)
           \<and> unresolved (resolve_state ?xy)
               = unresolved (pass_start ?xy (passes_run (initial ?xy) - 1))
           \<and> yielded (resolve_state ?xy)
               = yielded (pass_start ?xy (passes_run (initial ?xy) - 1)))"
    by blast
  with u have "unresolved (resolve_state ?xy)
      = unresolved (pass_start ?xy (passes_run (initial ?xy) - 1))"
    by blast
  then have b: "unresolved (resolve_state ?xy) = unresolved (pass_start ?xy 0)"
    by (simp add: m)
  from n m a(1) a2 a3 b show ?thesis by blast
qed

section \<open>Records that share a name\<close>

lemma symtab_last_write:
  "symtab ys n = Some v \<Longrightarrow>
     \<exists>q<length ys. ys ! q = (n, v) \<and> (\<forall>r. q < r \<and> r < length ys \<longrightarrow> fst (ys ! r) \<noteq> n)"
proof (induction ys rule: rev_induct)
  case Nil
  then show ?case by simp
next
  case (snoc y ys)
  obtain m w where y: "y = (m, w)" by (cases y)
  show ?case
  proof (cases "m = n")
    case True
    with snoc.prems y have "v = w" by simp
    with True y have "(ys @ [y]) ! length ys = (n, v)" by simp
    then show ?thesis by (intro exI [of _ "length ys"]) (auto simp: less_Suc_eq)
  next
    case False
    with snoc.prems y have "symtab ys n = Some v" by simp
    from snoc.IH [OF this] obtain q where q: "q < length ys" "ys ! q = (n, v)"
      "\<forall>r. q < r \<and> r < length ys \<longrightarrow> fst (ys ! r) \<noteq> n"
      by blast
    have "fst ((ys @ [y]) ! r) \<noteq> n" if "q < r" "r < length (ys @ [y])" for r
    proof (cases "r < length ys")
      case True
      with q(3) that show ?thesis by (simp add: nth_append)
    next
      case False
      with that have "r = length ys" by simp
      with y \<open>m \<noteq> n\<close> show ?thesis by simp
    qed
    with q(1,2) show ?thesis
      by (intro exI [of _ q]) (simp add: nth_append)
  qed
qed

lemma two_positions_mset:
  assumes "i < j" and "j < length ds"
  shows "{#ds ! i, ds ! j#} \<subseteq># mset ds"
proof -
  from assms have i: "i < length ds" by simp
  have split: "ds = take i ds @ ds ! i # drop (Suc i) ds"
    by (rule id_take_nth_drop [OF i])
  from assms have "drop (Suc i) ds ! (j - Suc i) = ds ! j" "j - Suc i < length (drop (Suc i) ds)"
    by simp_all
  then have "ds ! j \<in> set (drop (Suc i) ds)"
    by (metis nth_mem)
  then have "{#ds ! j#} \<subseteq># mset (drop (Suc i) ds)"
    by simp
  then have "{#ds ! i, ds ! j#} \<subseteq># mset (take i ds) + add_mset (ds ! i) (mset (drop (Suc i) ds))"
    by (simp add: subset_mset.add_increasing)
  also have "\<dots> = mset (take i ds @ ds ! i # drop (Suc i) ds)"
    by simp
  finally show ?thesis
    using split by simp
qed

lemma submset_of_partition:
  assumes "A \<subseteq># R + U" and "\<forall>x\<in>#A. x \<notin># U"
  shows "A \<subseteq># R"
proof (rule mset_subset_eqI)
  fix x
  show "count A x \<le> count R x"
  proof (cases "x \<in># A")
    case True
    with assms(2) have "count U x = 0" by (simp add: not_in_iff)
    with mset_subset_eq_count [OF assms(1), of x] show ?thesis by simp
  next
    case False
    then show ?thesis by (simp add: not_in_iff)
  qed
qed

text \<open>
  Claim C9. When two records of the input, at positions \<open>i < j\<close>, carry the same name
  \<open>n\<close> and neither is left unresolved, the output holds the name \<open>n\<close> at least twice:
  each record that resolves gives a pair of its own. In general the pairs named \<open>n\<close> in
  the output and the unresolved records named \<open>n\<close> together are as many as the records
  named \<open>n\<close> in the input. The symbol table at the end is the table of the output, a later
  pair replacing an earlier one: for \<open>n\<close> it holds the value of the last pair named \<open>n\<close>.
\<close>

theorem same_name_yielded_twice:
  assumes "i < j" and "j < length ds"
    and "fst (ds ! i) = n" and "fst (ds ! j) = n"
    and "ds ! i \<notin> set (unresolved (resolve_state ds))"
    and "ds ! j \<notin> set (unresolved (resolve_state ds))"
  shows "2 \<le> count_list (map fst (resolve_dependencies ds)) n
     \<and> count_list (map fst (resolve_dependencies ds)) n
         + count_list (map fst (unresolved (resolve_state ds))) n
         = count_list (map fst ds) n
     \<and> symbols (resolve_state ds) = map_of (rev (resolve_dependencies ds))
     \<and> (\<exists>q v. q < length (resolve_dependencies ds)
           \<and> resolve_dependencies ds ! q = (n, v)
           \<and> (\<forall>r. q < r \<and> r < length (resolve_dependencies ds)
                 \<longrightarrow> fst (resolve_dependencies ds ! r) \<noteq> n)
           \<and> symbols (resolve_state ds) n = Some v)"
proof -
  let ?out = "resolve_dependencies ds" and ?un = "unresolved (resolve_state ds)"
  obtain rs where rs: "justified rs ?out" "mset rs + mset ?un = mset ds"
    "symbols (resolve_state ds) = symtab ?out"
    by (rule final_facts)
  have "map fst rs = map fst ?out"
    by (rule justified_names [OF rs(1)])
  then have names: "image_mset fst (mset rs) = image_mset fst (mset ?out)"
    by (metis mset_map)
  have cm: "count (image_mset fst (mset xs)) n = count_list (map fst xs) n"
    for xs :: "(string \<times> 'b) list"
    by (metis count_mset mset_map)
  have "{#ds ! i, ds ! j#} \<subseteq># mset rs + mset ?un"
    unfolding rs(2) by (rule two_positions_mset [OF assms(1,2)])
  moreover from assms(5,6) have "\<forall>x\<in>#{#ds ! i, ds ! j#}. x \<notin># mset ?un"
    by simp
  ultimately have "{#ds ! i, ds ! j#} \<subseteq># mset rs"
    by (rule submset_of_partition)
  then have "image_mset fst {#ds ! i, ds ! j#} \<subseteq># image_mset fst (mset rs)"
    by (rule image_mset_subseteq_mono)
  then have "{#n, n#} \<subseteq># mset (map fst ?out)"
    using assms(3,4) names by simp
  from mset_subset_eq_count [OF this, of n]
  have two: "2 \<le> count_list (map fst ?out) n"
    by (simp add: cm)
  from rs(2) have "image_mset fst (mset rs + mset ?un) = image_mset fst (mset ds)"
    by simp
  then have "mset (map fst ?out) + mset (map fst ?un) = mset (map fst ds)"
    using names by simp
  then have "count (mset (map fst ?out) + mset (map fst ?un)) n = count (mset (map fst ds)) n"
    by simp
  then have all: "count_list (map fst ?out) n + count_list (map fst ?un) n
      = count_list (map fst ds) n"
    by (simp add: cm)
  have tab: "symbols (resolve_state ds) = map_of (rev ?out)"
    using rs(3) by (simp add: symtab_def)
  from two have "n \<in> set (map fst ?out)"
    by (metis count_list_0_iff not_numeral_le_zero)
  then have "n \<in> dom (symtab ?out)"
    by (simp add: dom_symtab)
  then obtain v where v: "symtab ?out n = Some v"
    by blast
  from symtab_last_write [OF v] v rs(3)
  have "\<exists>q v. q < length ?out \<and> ?out ! q = (n, v)
           \<and> (\<forall>r. q < r \<and> r < length ?out \<longrightarrow> fst (?out ! r) \<noteq> n)
           \<and> symbols (resolve_state ds) n = Some v"
    by auto
  with two all tab show ?thesis by blast
qed

theorem same_name_yielded_twice_witness:
  "resolve_dependencies [(''A'', ''1''), (''B'', ''(A + 1)''), (''A'', ''(B + 1)'')]
     = [(''A'', 1), (''B'', 2), (''A'', 3)]
   \<and> 2 \<le> count_list (map fst
       (resolve_dependencies [(''A'', ''1''), (''B'', ''(A + 1)''), (''A'', ''(B + 1)'')])) ''A''
   \<and> symbols (resolve_state [(''A'', ''1''), (''B'', ''(A + 1)''), (''A'', ''(B + 1)'')]) ''A''
       = Some 3"
proof -
  let ?ds = "[(''A'', ''1''), (''B'', ''(A + 1)''), (''A'', ''(B + 1)'')]"
  have out: "resolve_dependencies ?ds = [(''A'', 1), (''B'', 2), (''A'', 3)]"
    by code_simp
  have un: "unresolved (resolve_state ?ds) = []"
    by code_simp
  have "2 \<le> count_list (map fst (resolve_dependencies ?ds)) ''A''
     \<and> count_list (map fst (resolve_dependencies ?ds)) ''A''
         + count_list (map fst (unresolved (resolve_state ?ds))) ''A''
         = count_list (map fst ?ds) ''A''
     \<and> symbols (resolve_state ?ds) = map_of (rev (resolve_dependencies ?ds))
     \<and> (\<exists>q v. q < length (resolve_dependencies ?ds)
           \<and> resolve_dependencies ?ds ! q = (''A'', v)
           \<and> (\<forall>r. q < r \<and> r < length (resolve_dependencies ?ds)
                 \<longrightarrow> fst (resolve_dependencies ?ds ! r) \<noteq> ''A'')
           \<and> symbols (resolve_state ?ds) ''A'' = Some v)"
    by (rule same_name_yielded_twice [where i = 0 and j = 2]) (simp_all add: un)
  then have "2 \<le> count_list (map fst (resolve_dependencies ?ds)) ''A''"
    and "symbols (resolve_state ?ds) = map_of (rev (resolve_dependencies ?ds))"
    by blast+
  then show ?thesis
    by (simp add: out)
qed

section \<open>The symbol table over time\<close>

lemma inv_pass_start: "inv ds (pass_start ds k)"
  by (induction k) (simp_all add: inv_initial inv_one_pass)

lemma yielded_one_pass: "prefix (yielded st) (yielded (one_pass st))"
proof -
  obtain sy ys still where
    f: "fold attempt (unresolved st) (symbols st, yielded st, []) = (sy, ys, still)"
    by (cases "fold attempt (unresolved st) (symbols st, yielded st, [])")
  with fold_attempt_prefix [OF f] show ?thesis
    by (simp add: one_pass_def)
qed

lemma yielded_pass_start_mono:
  "k \<le> k' \<Longrightarrow> prefix (yielded (pass_start ds k)) (yielded (pass_start ds k'))"
proof (induction k')
  case 0
  then show ?case by simp
next
  case (Suc k')
  show ?case
  proof (cases "k = Suc k'")
    case True
    then show ?thesis by simp
  next
    case False
    with Suc.prems have "k \<le> k'" by simp
    from Suc.IH [OF this] yielded_one_pass [of "pass_start ds k'"] show ?thesis
      by (auto intro: prefix_order.trans)
  qed
qed

lemma during_facts:
  obtains sy ys still where "during ds k j = (sy, ys, still)" and "sy = symtab ys"
    and "prefix (yielded (pass_start ds k)) ys"
    and "prefix ys (yielded (pass_start ds (Suc k)))"
proof -
  let ?st = "pass_start ds k"
  let ?s0 = "(symbols ?st, yielded ?st, [])"
  obtain sy ys still where d: "during ds k j = (sy, ys, still)"
    by (cases "during ds k j")
  then have f: "fold attempt (take j (unresolved ?st)) ?s0 = (sy, ys, still)"
    by (simp add: during_def)
  from inv_pass_start [of ds k] obtain rs where
    rs: "justified rs (yielded ?st)" and s: "symbols ?st = symtab (yielded ?st)"
    by (auto simp: inv_def)
  from fold_attempt_inv [OF f rs s] have a: "sy = symtab ys" "prefix (yielded ?st) ys"
    by blast+
  obtain sy' ys' still' where
    g: "fold attempt (drop j (unresolved ?st)) (sy, ys, still) = (sy', ys', still')"
    by (cases "fold attempt (drop j (unresolved ?st)) (sy, ys, still)")
  have "fold attempt (unresolved ?st) ?s0
      = fold attempt (drop j (unresolved ?st)) (fold attempt (take j (unresolved ?st)) ?s0)"
    by (metis append_take_drop_id fold_append comp_apply)
  with f g have "fold attempt (unresolved ?st) ?s0 = (sy', ys', still')"
    by simp
  then have "yielded (pass_start ds (Suc k)) = ys'"
    by (simp add: one_pass_def)
  with fold_attempt_prefix [OF g] have "prefix ys (yielded (pass_start ds (Suc k)))"
    by simp
  with d a that show ?thesis by blast
qed

lemma during_step:
  assumes "j \<le> j'"
  shows "prefix (fst (snd (during ds k j))) (fst (snd (during ds k j')))"
proof -
  let ?st = "pass_start ds k"
  let ?s0 = "(symbols ?st, yielded ?st, [])"
  let ?us = "unresolved ?st"
  from assms have "take j' ?us = take j ?us @ take (j' - j) (drop j ?us)"
    by (metis le_add_diff_inverse take_add)
  then have e: "during ds k j' = fold attempt (take (j' - j) (drop j ?us)) (during ds k j)"
    by (simp add: during_def)
  obtain sy ys still where d: "during ds k j = (sy, ys, still)"
    by (cases "during ds k j")
  obtain sy' ys' still' where d': "during ds k j' = (sy', ys', still')"
    by (cases "during ds k j'")
  from e d d' have "fold attempt (take (j' - j) (drop j ?us)) (sy, ys, still) = (sy', ys', still')"
    by simp
  from fold_attempt_prefix [OF this] d d' show ?thesis by simp
qed

lemma during_order:
  assumes "k < k' \<or> (k = k' \<and> j \<le> j')"
  shows "prefix (fst (snd (during ds k j))) (fst (snd (during ds k' j')))"
proof (cases "k < k'")
  case True
  obtain sy ys still where a: "during ds k j = (sy, ys, still)"
    "prefix ys (yielded (pass_start ds (Suc k)))"
    by (rule during_facts [of ds k j]) blast
  obtain sy' ys' still' where b: "during ds k' j' = (sy', ys', still')"
    "prefix (yielded (pass_start ds k')) ys'"
    by (rule during_facts [of ds k' j']) blast
  from True have "prefix (yielded (pass_start ds (Suc k))) (yielded (pass_start ds k'))"
    by (intro yielded_pass_start_mono) simp
  with a(2) b(2) have "prefix ys ys'"
    by (blast intro: prefix_order.trans)
  with a(1) b(1) show ?thesis by simp
next
  case False
  with assms have "k = k'" "j \<le> j'" by simp_all
  with during_step [of j j' ds k] show ?thesis by simp
qed

lemma during_final:
  assumes "k < passes_run (initial ds)"
  shows "prefix (fst (snd (during ds k j))) (resolve_dependencies ds)"
proof -
  obtain sy ys still where a: "during ds k j = (sy, ys, still)"
    "prefix ys (yielded (pass_start ds (Suc k)))"
    by (rule during_facts [of ds k j]) blast
  from assms
  have "prefix (yielded (pass_start ds (Suc k))) (yielded (pass_start ds (passes_run (initial ds))))"
    by (intro yielded_pass_start_mono) simp
  with a show ?thesis
    by (auto simp: resolve_dependencies_def resolve_state_pass_start intro: prefix_order.trans)
qed

lemma during_symtab: "fst (during ds k j) = symtab (fst (snd (during ds k j)))"
  by (rule during_facts [of ds k j]) simp

lemma prefix_symtab_le:
  assumes "prefix xs ys" and "distinct (map fst ys)"
  shows "symtab xs \<subseteq>\<^sub>m symtab ys"
proof -
  from assms(1) obtain zs where ys: "ys = xs @ zs"
    by (auto simp: prefix_def)
  with assms(2) have "dom (symtab xs) \<inter> dom (symtab zs) = {}"
    by (auto simp: dom_symtab)
  then have "symtab xs ++ symtab zs = symtab zs ++ symtab xs"
    by (rule map_add_comm)
  moreover have "symtab ys = symtab xs ++ symtab zs"
    by (simp add: ys symtab_def)
  ultimately show ?thesis
    by (simp add: map_le_map_add)
qed

lemma distinct_submset:
  assumes "mset xs \<subseteq># mset ys" and "distinct ys"
  shows "distinct xs"
proof -
  have "count (mset xs) a = (if a \<in> set xs then 1 else 0)" for a
  proof (cases "a \<in> set xs")
    case True
    then have c: "count (mset xs) a \<noteq> 0"
      by (simp add: count_eq_zero_iff)
    from assms(2) have "count (mset ys) a \<le> 1"
      by (simp add: distinct_count_atmost_1)
    with c mset_subset_eq_count [OF assms(1), of a] have "count (mset xs) a = 1"
      by linarith
    with True show ?thesis by simp
  next
    case False
    then show ?thesis by (simp add: not_in_iff)
  qed
  then show ?thesis by (simp add: distinct_count_atmost_1)
qed

lemma distinct_output:
  assumes "distinct (map fst ds)"
  shows "distinct (map fst (resolve_dependencies ds))"
proof -
  obtain rs where rs: "justified rs (resolve_dependencies ds)"
    "mset rs + mset (unresolved (resolve_state ds)) = mset ds"
    by (rule final_facts)
  from rs(2) have "mset rs \<subseteq># mset ds"
    by (metis mset_subset_eq_add_left)
  then have "image_mset fst (mset rs) \<subseteq># image_mset fst (mset ds)"
    by (rule image_mset_subseteq_mono)
  then have "mset (map fst rs) \<subseteq># mset (map fst ds)"
    by simp
  from distinct_submset [OF this assms] justified_names [OF rs(1)] show ?thesis
    by simp
qed

lemma symtab_append: "symtab (xs @ zs) = symtab xs ++ symtab zs"
  by (simp add: symtab_def)

lemma symtab_append_other:
  assumes "n \<notin> fst ` set zs"
  shows "symtab (xs @ zs) n = symtab xs n"
proof -
  from assms have "n \<notin> dom (symtab zs)"
    by (simp add: dom_symtab)
  then have "(symtab xs ++ symtab zs) n = symtab xs n"
    by (rule map_add_dom_app_simps(3))
  then show ?thesis
    by (simp only: symtab_append)
qed

lemma symtab_prefix_once:
  assumes "prefix xs ys" and "count_list (map fst ys) n \<le> 1" and "symtab xs n = Some v"
  shows "symtab ys n = Some v"
proof -
  from assms(1) obtain zs where ys: "ys = xs @ zs"
    by (auto simp: prefix_def)
  from assms(3) have "n \<in> dom (symtab xs)"
    by blast
  then have "n \<in> set (map fst xs)"
    by (simp add: dom_symtab)
  then have "count_list (map fst xs) n \<noteq> 0"
    by (simp only: count_list_0_iff) simp
  moreover from assms(2)
  have "count_list (map fst xs) n + count_list (map fst zs) n \<le> 1"
    unfolding ys by simp
  ultimately have "count_list (map fst zs) n = 0"
    by arith
  then have "n \<notin> set (map fst zs)"
    by (simp only: count_list_0_iff simp_thms)
  then have "n \<notin> fst ` set zs"
    by simp
  from symtab_append_other [OF this, of xs] assms(3) show ?thesis
    unfolding ys by simp
qed

lemma count_prefix_le:
  "prefix xs ys \<Longrightarrow> count_list (map fst xs) n \<le> count_list (map fst ys) n"
  by (auto simp: prefix_def)

lemma symtab_take_other:
  assumes "m \<le> m'" and "m' \<le> length ys" and "\<forall>i. m \<le> i \<and> i < m' \<longrightarrow> fst (ys ! i) \<noteq> n"
  shows "symtab (take m' ys) n = symtab (take m ys) n"
proof -
  let ?zs = "take (m' - m) (drop m ys)"
  from assms(1) have t: "take m' ys = take m ys @ ?zs"
    by (metis le_add_diff_inverse take_add)
  have "n \<notin> fst ` set ?zs"
  proof
    assume "n \<in> fst ` set ?zs"
    then obtain p where p: "p \<in> set ?zs" "fst p = n"
      by auto
    then obtain i where i: "i < length ?zs" "?zs ! i = p"
      by (auto simp: in_set_conv_nth)
    from i(1) have l: "i < m' - m"
      by simp
    with i(2) assms(1,2) have "ys ! (m + i) = p"
      by simp
    moreover from l have "m \<le> m + i \<and> m + i < m'"
      by arith
    ultimately show False
      using assms(3) p(2) by blast
  qed
  from symtab_append_other [OF this, of "take m ys"] show ?thesis
    unfolding t [symmetric] .
qed

lemma output_count_le:
  "count_list (map fst (resolve_dependencies ds)) n \<le> count_list (map fst ds) n"
proof -
  obtain rs where rs: "justified rs (resolve_dependencies ds)"
    "mset rs + mset (unresolved (resolve_state ds)) = mset ds"
    by (rule final_facts)
  from rs(2) have "mset rs \<subseteq># mset ds"
    by (metis mset_subset_eq_add_left)
  then have "image_mset fst (mset rs) \<subseteq># image_mset fst (mset ds)"
    by (rule image_mset_subseteq_mono)
  then have "mset (map fst rs) \<subseteq># mset (map fst ds)"
    by simp
  from mset_subset_eq_count [OF this, of n]
  have "count_list (map fst rs) n \<le> count_list (map fst ds) n"
    unfolding count_mset .
  then show ?thesis
    unfolding justified_names [OF rs(1)] .
qed

text \<open>
  Claim C6, as amended. During one run no name is ever removed from the symbol table: of
  two points of the run, the table at the earlier one has no name that the table at the
  later one lacks, and neither has a name that the final table lacks. The table at a
  point is the table of the pairs yielded so far, a prefix of the output that only gets
  longer. The assignment of line 98 is unconditional, so an entry is overwritten when
  another record of the same name resolves, and only then: between two points the
  entry of a name is the same unless a pair of that name is yielded between them. A
  name that at most one pair of the output carries keeps, from the point where it is
  set to the end, the value it was given; a name occurs in the output at most as often
  as in the input, so this holds of every name that at most one record of the input
  carries. If the names of the input records are pairwise distinct, the table at the
  earlier point is contained in the table at the later point and in the final table,
  value by value. The points are those of \<open>during\<close>: pass \<open>k' + 1\<close> is a pass of the
  run, and \<open>(k, j)\<close> comes no later than \<open>(k', j')\<close>.
\<close>

theorem symbol_table_grows:
  assumes "k' < passes_run (initial ds)" and "k < k' \<or> (k = k' \<and> j \<le> j')"
  shows "dom (fst (during ds k j)) \<subseteq> dom (fst (during ds k' j'))
     \<and> dom (fst (during ds k' j')) \<subseteq> dom (symbols (resolve_state ds))
     \<and> (\<exists>m m'. m \<le> m' \<and> m' \<le> length (resolve_dependencies ds)
           \<and> fst (during ds k j) = symtab (take m (resolve_dependencies ds))
           \<and> fst (during ds k' j') = symtab (take m' (resolve_dependencies ds))
           \<and> symbols (resolve_state ds) = symtab (resolve_dependencies ds)
           \<and> (\<forall>n. (\<forall>i. m \<le> i \<and> i < m' \<longrightarrow> fst (resolve_dependencies ds ! i) \<noteq> n)
                 \<longrightarrow> fst (during ds k' j') n = fst (during ds k j) n)
           \<and> (\<forall>n. (\<forall>i. m' \<le> i \<and> i < length (resolve_dependencies ds)
                        \<longrightarrow> fst (resolve_dependencies ds ! i) \<noteq> n)
                 \<longrightarrow> symbols (resolve_state ds) n = fst (during ds k' j') n))
     \<and> (\<forall>n v. count_list (map fst (resolve_dependencies ds)) n \<le> 1
           \<longrightarrow> fst (during ds k j) n = Some v
           \<longrightarrow> fst (during ds k' j') n = Some v \<and> symbols (resolve_state ds) n = Some v)
     \<and> (\<forall>n. count_list (map fst (resolve_dependencies ds)) n \<le> count_list (map fst ds) n)
     \<and> (distinct (map fst ds) \<longrightarrow>
          fst (during ds k j) \<subseteq>\<^sub>m fst (during ds k' j')
        \<and> fst (during ds k' j') \<subseteq>\<^sub>m symbols (resolve_state ds))"
proof -
  let ?Y = "fst (snd (during ds k j))" and ?Y' = "fst (snd (during ds k' j'))"
  let ?out = "resolve_dependencies ds"
  have p: "prefix ?Y ?Y'"
    by (rule during_order [OF assms(2)])
  have q: "prefix ?Y' ?out"
    by (rule during_final [OF assms(1)])
  have fin: "symbols (resolve_state ds) = symtab ?out"
    by (rule final_facts [of ds])
  have d1: "dom (fst (during ds k j)) \<subseteq> dom (fst (during ds k' j'))"
    using prefix_dom_symtab [OF p] by (simp add: during_symtab [symmetric])
  have d2: "dom (fst (during ds k' j')) \<subseteq> dom (symbols (resolve_state ds))"
    using prefix_dom_symtab [OF q] by (simp add: during_symtab [symmetric] fin)
  have m: "fst (during ds k j) \<subseteq>\<^sub>m fst (during ds k' j')
        \<and> fst (during ds k' j') \<subseteq>\<^sub>m symbols (resolve_state ds)"
    if "distinct (map fst ds)"
  proof -
    from that have o: "distinct (map fst ?out)"
      by (rule distinct_output)
    with q have "distinct (map fst ?Y')"
      by (auto simp: prefix_def)
    from prefix_symtab_le [OF p this] prefix_symtab_le [OF q o] show ?thesis
      by (simp add: during_symtab [symmetric] fin)
  qed
  have once: "fst (during ds k' j') n = Some v \<and> symbols (resolve_state ds) n = Some v"
    if c: "count_list (map fst ?out) n \<le> 1" and v: "fst (during ds k j) n = Some v" for n v
  proof -
    from count_prefix_le [OF q, of n] c have c': "count_list (map fst ?Y') n \<le> 1"
      by simp
    from v have "symtab ?Y n = Some v"
      by (simp only: during_symtab [symmetric])
    from symtab_prefix_once [OF p c' this] have a: "symtab ?Y' n = Some v" .
    from symtab_prefix_once [OF q c a] have b: "symtab ?out n = Some v" .
    from a b show ?thesis
      by (simp only: during_symtab [symmetric] fin simp_thms)
  qed
  have pre: "\<exists>m m'. m \<le> m' \<and> m' \<le> length ?out
           \<and> fst (during ds k j) = symtab (take m ?out)
           \<and> fst (during ds k' j') = symtab (take m' ?out)
           \<and> symbols (resolve_state ds) = symtab ?out
           \<and> (\<forall>n. (\<forall>i. m \<le> i \<and> i < m' \<longrightarrow> fst (?out ! i) \<noteq> n)
                 \<longrightarrow> fst (during ds k' j') n = fst (during ds k j) n)
           \<and> (\<forall>n. (\<forall>i. m' \<le> i \<and> i < length ?out \<longrightarrow> fst (?out ! i) \<noteq> n)
                 \<longrightarrow> symbols (resolve_state ds) n = fst (during ds k' j') n)"
  proof -
    let ?m = "length ?Y" and ?m' = "length ?Y'"
    from p have l: "?m \<le> ?m'"
      by (rule prefix_length_le)
    from q have l': "?m' \<le> length ?out"
      by (rule prefix_length_le)
    from q have t': "take ?m' ?out = ?Y'"
      by (auto simp: prefix_def)
    from p q have "prefix ?Y ?out"
      by (rule prefix_order.trans)
    then have t: "take ?m ?out = ?Y"
      by (auto simp: prefix_def)
    have e: "fst (during ds k j) = symtab (take ?m ?out)"
      "fst (during ds k' j') = symtab (take ?m' ?out)"
      unfolding t t' by (rule during_symtab)+
    have same: "fst (during ds k' j') n = fst (during ds k j) n"
      if "\<forall>i. ?m \<le> i \<and> i < ?m' \<longrightarrow> fst (?out ! i) \<noteq> n" for n
      unfolding e by (rule symtab_take_other [OF l l' that])
    have last: "symbols (resolve_state ds) n = fst (during ds k' j') n"
      if "\<forall>i. ?m' \<le> i \<and> i < length ?out \<longrightarrow> fst (?out ! i) \<noteq> n" for n
      using symtab_take_other [OF l' le_refl that] unfolding e fin by simp
    from l l' e fin same last show ?thesis
      by blast
  qed
  from d1 d2 m once pre output_count_le [of ds] show ?thesis
    by blast
qed

theorem symbol_table_grows_witness:
  "0 < passes_run (initial [(''A'', ''1''), (''Z'', ''1''), (''Z'', ''2'')])
   \<and> count_list (map fst (resolve_dependencies [(''A'', ''1''), (''Z'', ''1''), (''Z'', ''2'')])) ''A'' \<le> 1
   \<and> fst (during [(''A'', ''1''), (''Z'', ''1''), (''Z'', ''2'')] 0 1) ''A'' = Some 1
   \<and> fst (during [(''A'', ''1''), (''Z'', ''1''), (''Z'', ''2'')] 0 3) ''A'' = Some 1
   \<and> symbols (resolve_state [(''A'', ''1''), (''Z'', ''1''), (''Z'', ''2'')]) ''A'' = Some 1
   \<and> fst (during [(''A'', ''1''), (''Z'', ''1''), (''Z'', ''2'')] 0 2) ''Z'' = Some 1
   \<and> fst (during [(''A'', ''1''), (''Z'', ''1''), (''Z'', ''2'')] 0 3) ''Z'' = Some 2
   \<and> dom (fst (during [(''A'', ''1''), (''Z'', ''1''), (''Z'', ''2'')] 0 1))
       \<subseteq> dom (fst (during [(''A'', ''1''), (''Z'', ''1''), (''Z'', ''2'')] 0 3))
   \<and> 0 < passes_run (initial [(''B'', ''(A + 1)''), (''A'', ''1'')])
   \<and> distinct (map fst [(''B'', ''(A + 1)''), (''A'', ''1'')])
   \<and> fst (during [(''B'', ''(A + 1)''), (''A'', ''1'')] 0 1) ''A'' = None
   \<and> fst (during [(''B'', ''(A + 1)''), (''A'', ''1'')] 0 2) ''A'' = Some 1
   \<and> fst (during [(''B'', ''(A + 1)''), (''A'', ''1'')] 0 1)
       \<subseteq>\<^sub>m fst (during [(''B'', ''(A + 1)''), (''A'', ''1'')] 0 2)
   \<and> fst (during [(''B'', ''(A + 1)''), (''A'', ''1'')] 0 2)
       \<subseteq>\<^sub>m symbols (resolve_state [(''B'', ''(A + 1)''), (''A'', ''1'')])
   \<and> dom (fst (during [(''B'', ''(A + 1)''), (''A'', ''1'')] 0 2))
       \<subseteq> dom (symbols (resolve_state [(''B'', ''(A + 1)''), (''A'', ''1'')]))"
proof -
  let ?ds = "[(''B'', ''(A + 1)''), (''A'', ''1'')]"
  let ?es = "[(''A'', ''1''), (''Z'', ''1''), (''Z'', ''2'')]"
  have n: "0 < passes_run (initial ?ds)"
    by code_simp
  have d: "distinct (map fst ?ds)"
    by simp
  have a: "fst (during ?ds 0 1) ''A'' = None" "fst (during ?ds 0 2) ''A'' = Some 1"
    by code_simp+
  have o: "(0::nat) < 0 \<or> ((0::nat) = 0 \<and> (1::nat) \<le> 2)"
    by simp
  have n': "0 < passes_run (initial ?es)"
    by code_simp
  have c: "count_list (map fst (resolve_dependencies ?es)) ''A'' \<le> 1"
    by code_simp
  have b: "fst (during ?es 0 1) ''A'' = Some 1" "fst (during ?es 0 2) ''Z'' = Some 1"
    "fst (during ?es 0 3) ''Z'' = Some 2"
    by code_simp+
  have o': "(0::nat) < 0 \<or> ((0::nat) = 0 \<and> (1::nat) \<le> 3)"
    by simp
  from symbol_table_grows [OF n' o'] c b(1)
  have e: "fst (during ?es 0 3) ''A'' = Some 1 \<and> symbols (resolve_state ?es) ''A'' = Some 1"
    "dom (fst (during ?es 0 1)) \<subseteq> dom (fst (during ?es 0 3))"
    by blast+
  from symbol_table_grows [OF n o] d
  have f: "fst (during ?ds 0 1) \<subseteq>\<^sub>m fst (during ?ds 0 2)"
    "fst (during ?ds 0 2) \<subseteq>\<^sub>m symbols (resolve_state ?ds)"
    "dom (fst (during ?ds 0 2)) \<subseteq> dom (symbols (resolve_state ?ds))"
    by blast+
  from n' c b e n d a f show ?thesis
    by simp
qed

text \<open>
  Claim C6 as stated fails. For the records \<^verbatim>\<open>A = 1\<close> and \<^verbatim>\<open>A = 2\<close> the first pass
  sets \<open>A\<close> to 1 at its first iteration and overwrites it with 2 at its second.
\<close>

theorem entry_overwritten_counterexample:
  "0 < passes_run (initial [(''A'', ''1''), (''A'', ''2'')])
   \<and> fst (during [(''A'', ''1''), (''A'', ''2'')] 0 1) ''A'' = Some 1
   \<and> fst (during [(''A'', ''1''), (''A'', ''2'')] 0 2) ''A'' = Some 2
   \<and> symbols (resolve_state [(''A'', ''1''), (''A'', ''2'')]) ''A'' = Some 2
   \<and> \<not> fst (during [(''A'', ''1''), (''A'', ''2'')] 0 1)
         \<subseteq>\<^sub>m fst (during [(''A'', ''1''), (''A'', ''2'')] 0 2)"
proof -
  let ?ds = "[(''A'', ''1''), (''A'', ''2'')]"
  have n: "0 < passes_run (initial ?ds)"
    by code_simp
  have a: "fst (during ?ds 0 1) ''A'' = Some 1" "fst (during ?ds 0 2) ''A'' = Some 2"
    "symbols (resolve_state ?ds) ''A'' = Some 2"
    by code_simp+
  from a(1,2) have "\<not> fst (during ?ds 0 1) \<subseteq>\<^sub>m fst (during ?ds 0 2)"
    by (auto simp: map_le_def dom_def)
  with n a show ?thesis by blast
qed

section \<open>Properties of the extractor\<close>

lemma scan_line_selected:
  assumes "is_define_line line name rest" and "wanted name"
  shows "scan_line line defines = defines @ [(name, strip (re_sub_comment rest))]"
proof -
  from assms(1) obtain kw ws1 ws2 where p: "prefix ''#define'' (strip line)"
    and d: "strip line = kw @ ws1 @ name @ ws2 @ rest"
    and c: "kw \<noteq> []" "\<forall>c\<in>set kw. \<not> isspace c" "ws1 \<noteq> []" "\<forall>c\<in>set ws1. isspace c"
      "name \<noteq> []" "\<forall>c\<in>set name. \<not> isspace c" "ws2 \<noteq> []" "\<forall>c\<in>set ws2. isspace c"
      "rest \<noteq> []" "\<not> isspace (hd rest)"
    unfolding is_define_line_def by blast
  have sp: "split_ws 2 (strip line) = [kw, name, rest]"
    unfolding d by (rule split_ws_three [OF c])
  show ?thesis
    unfolding scan_line_def Let_def sp using p assms(2) by simp
qed

lemma scan_line_cases:
  "scan_line line defines = defines
   \<or> (prefix ''#define'' (strip line) \<and> 3 \<le> length (split_ws 2 (strip line))
      \<and> wanted (split_ws 2 (strip line) ! 1)
      \<and> scan_line line defines = defines @ [(split_ws 2 (strip line) ! 1,
          strip (re_sub_comment (split_ws 2 (strip line) ! 2)))])"
  unfolding scan_line_def Let_def by simp

lemma scan_line_append:
  assumes "scan_line line defines = defines @ [(name, expr)]"
  shows "\<exists>rest. is_define_line line name rest \<and> wanted name
     \<and> expr = strip (re_sub_comment rest)"
proof -
  from assms scan_line_cases [of line "defines"]
  have take: "prefix ''#define'' (strip line)" "3 \<le> length (split_ws 2 (strip line))"
    "wanted (split_ws 2 (strip line) ! 1)"
    "scan_line line defines = defines @ [(split_ws 2 (strip line) ! 1,
          strip (re_sub_comment (split_ws 2 (strip line) ! 2)))]"
    by auto
  from split_ws_parts [OF take(2) dropWhile_strip]
  obtain kw ws1 name' ws2 rest where sp: "split_ws 2 (strip line) = [kw, name', rest]"
    and d: "strip line = kw @ ws1 @ name' @ ws2 @ rest"
    and c: "kw \<noteq> []" "\<forall>c\<in>set kw. \<not> isspace c" "ws1 \<noteq> []" "\<forall>c\<in>set ws1. isspace c"
      "name' \<noteq> []" "\<forall>c\<in>set name'. \<not> isspace c" "ws2 \<noteq> []" "\<forall>c\<in>set ws2. isspace c"
      "rest \<noteq> []" "\<not> isspace (hd rest)"
    by blast
  from take(4) assms have e: "name = name'" "expr = strip (re_sub_comment rest)"
    unfolding sp by simp_all
  from take(3) have w: "wanted name'"
    unfolding sp by simp
  have "is_define_line line name' rest"
    unfolding is_define_line_def using take(1) d c by blast
  with e w show ?thesis by blast
qed

lemma scan_line_acc: "scan_line line defines = defines @ scan_line line []"
  unfolding scan_line_def Let_def by simp

lemma fold_scan_line:
  "fold scan_line ls acc = acc @ concat (map (\<lambda>line. scan_line line []) ls)"
proof (induction ls arbitrary: acc)
  case Nil
  then show ?case by simp
next
  case (Cons l ls)
  have "fold scan_line (l # ls) acc = fold scan_line ls (scan_line l acc)"
    by simp
  also have "\<dots> = scan_line l acc @ concat (map (\<lambda>line. scan_line line []) ls)"
    by (rule Cons.IH)
  also have "scan_line l acc = acc @ scan_line l []"
    by (rule scan_line_acc)
  finally show ?case by simp
qed

lemma directive_line_define_line:
  assumes "is_directive_line line name rest"
  shows "is_define_line line name rest"
proof -
  from assms obtain ws1 ws2 where d: "strip line = ''#define'' @ ws1 @ name @ ws2 @ rest"
    and c: "ws1 \<noteq> []" "\<forall>c\<in>set ws1. isspace c"
      "name \<noteq> []" "\<forall>c\<in>set name. \<not> isspace c" "ws2 \<noteq> []" "\<forall>c\<in>set ws2. isspace c"
      "rest \<noteq> []" "\<not> isspace (hd rest)"
    unfolding is_directive_line_def by blast
  have k: "''#define'' \<noteq> []" "\<forall>c\<in>set ''#define''. \<not> isspace c"
    by (simp_all add: isspace_def)
  have p: "prefix ''#define'' (strip line)"
    unfolding d by (rule prefixI) (rule refl)
  show ?thesis
    unfolding is_define_line_def using p d k c by blast
qed

lemma wanted_names:
  "wanted name \<longleftrightarrow> name = ''THIRD_PARTY_EVENT_ID_MIN'' \<or> prefix ''EVT_'' name
     \<or> prefix ''CDU_EVT_OFFSET_'' name"
  unfolding wanted_def ..

text \<open>
  Claim C5, as amended. A line adds a record with the name \<open>name\<close> and the expression
  \<open>expr\<close> to the list exactly when, trimmed, it starts with the characters
  \<^verbatim>\<open>#define\<close> and is a first token, white space, the token \<open>name\<close>, white space, and a
  remainder \<open>rest\<close> that does not start with white space and is kept as it is, the name
  is \<^verbatim>\<open>THIRD_PARTY_EVENT_ID_MIN\<close> or starts with \<^verbatim>\<open>EVT_\<close> or starts with
  \<^verbatim>\<open>CDU_EVT_OFFSET_\<close>, and \<open>expr\<close> is the remainder without its comment, trimmed. The
  first token need not be the directive: it only begins with \<^verbatim>\<open>#define\<close>. A line whose
  first token is the directive itself is such a line. A line leaves the list as it is
  exactly when it has no such decomposition with such a name. The list extracted from a
  file is the concatenation, in the order of the lines, of what each line gives.
\<close>

theorem define_line_selection:
  "(scan_line line defines = defines @ [(name, expr)]
      \<longleftrightarrow> (\<exists>rest. is_define_line line name rest
             \<and> (name = ''THIRD_PARTY_EVENT_ID_MIN'' \<or> prefix ''EVT_'' name
                 \<or> prefix ''CDU_EVT_OFFSET_'' name)
             \<and> expr = strip (re_sub_comment rest)))
   \<and> (scan_line line defines = defines
      \<longleftrightarrow> \<not> (\<exists>name rest. is_define_line line name rest
             \<and> (name = ''THIRD_PARTY_EVENT_ID_MIN'' \<or> prefix ''EVT_'' name
                 \<or> prefix ''CDU_EVT_OFFSET_'' name)))
   \<and> (is_directive_line line name rest \<longrightarrow> is_define_line line name rest)
   \<and> extract_defines_from_header content
       = concat (map (\<lambda>line. scan_line line []) (file_lines (universal_newlines content)))"
proof -
  have a: "scan_line line defines = defines @ [(name, expr)]
      \<longleftrightarrow> (\<exists>rest. is_define_line line name rest \<and> wanted name
             \<and> expr = strip (re_sub_comment rest))"
    using scan_line_append [of line "defines" name expr]
      scan_line_selected [of line name _ "defines"]
    by blast
  have b: "scan_line line defines = defines
      \<longleftrightarrow> \<not> (\<exists>name rest. is_define_line line name rest \<and> wanted name)"
  proof
    assume s: "scan_line line defines = defines"
    show "\<not> (\<exists>name rest. is_define_line line name rest \<and> wanted name)"
    proof
      assume "\<exists>name rest. is_define_line line name rest \<and> wanted name"
      then obtain name rest where "is_define_line line name rest" "wanted name"
        by blast
      from scan_line_selected [OF this, of "defines"] s show False by simp
    qed
  next
    assume n: "\<not> (\<exists>name rest. is_define_line line name rest \<and> wanted name)"
    show "scan_line line defines = defines"
    proof (rule ccontr)
      assume "scan_line line defines \<noteq> defines"
      with scan_line_cases [of line "defines"]
      have "scan_line line defines = defines @ [(split_ws 2 (strip line) ! 1,
          strip (re_sub_comment (split_ws 2 (strip line) ! 2)))]"
        by blast
      from scan_line_append [OF this] n show False by blast
    qed
  qed
  have c: "extract_defines_from_header content
       = concat (map (\<lambda>line. scan_line line []) (file_lines (universal_newlines content)))"
    unfolding extract_defines_from_header_def fold_scan_line by simp
  have d: "is_directive_line line name rest \<longrightarrow> is_define_line line name rest"
    using directive_line_define_line by blast
  from a b c d show ?thesis
    unfolding wanted_names by blast
qed

theorem define_line_selection_witness:
  "scan_line ''  #define EVT_FOO (EVT_A  + 0x1) // first'' [] = [(''EVT_FOO'', ''(EVT_A  + 0x1)'')]
   \<and> (\<exists>rest. is_define_line ''  #define EVT_FOO (EVT_A  + 0x1) // first'' ''EVT_FOO'' rest
         \<and> (''EVT_FOO'' = ''THIRD_PARTY_EVENT_ID_MIN'' \<or> prefix ''EVT_'' ''EVT_FOO''
             \<or> prefix ''CDU_EVT_OFFSET_'' ''EVT_FOO'')
         \<and> ''(EVT_A  + 0x1)'' = strip (re_sub_comment rest))
   \<and> scan_line ''#define THIRD_PARTY_EVENT_ID_MIN 0x00011000'' []
       = [(''THIRD_PARTY_EVENT_ID_MIN'', ''0x00011000'')]
   \<and> scan_line ''#define CDU_EVT_OFFSET_L 0'' [] = [(''CDU_EVT_OFFSET_L'', ''0'')]
   \<and> scan_line ''#define OTHER_NAME 0x1'' [] = []
   \<and> \<not> (\<exists>name rest. is_define_line ''#define OTHER_NAME 0x1'' name rest
         \<and> (name = ''THIRD_PARTY_EVENT_ID_MIN'' \<or> prefix ''EVT_'' name
             \<or> prefix ''CDU_EVT_OFFSET_'' name))
   \<and> scan_line ''#define THIRD_PARTY_EVENT_ID_MAX 0x0001FFFF'' [] = []
   \<and> scan_line ''#define MY_EVT_A 1'' [] = []
   \<and> scan_line ''#define CDU_EVT_L 1'' [] = []
   \<and> scan_line ''#define EVT_A'' [] = []
   \<and> scan_line ''# define EVT_A 1'' [] = []
   \<and> is_directive_line ''#define EVT_A 1'' ''EVT_A'' ''1''
   \<and> is_define_line ''#define EVT_A 1'' ''EVT_A'' ''1''
   \<and> extract_defines_from_header (''#define EVT_B 2'' @ [CR, LF] @ ''int x;'' @ [LF] @ ''#define EVT_A 1'')
       = [(''EVT_B'', ''2''), (''EVT_A'', ''1'')]"
proof -
  have 1: "scan_line ''  #define EVT_FOO (EVT_A  + 0x1) // first'' []
      = [] @ [(''EVT_FOO'', ''(EVT_A  + 0x1)'')]"
    by code_simp
  have 2: "scan_line ''#define OTHER_NAME 0x1'' [] = []"
    by code_simp
  have 3: "extract_defines_from_header (''#define EVT_B 2'' @ [CR, LF] @ ''int x;'' @ [LF] @ ''#define EVT_A 1'')
       = [(''EVT_B'', ''2''), (''EVT_A'', ''1'')]"
    by code_simp
  from define_line_selection [of "''  #define EVT_FOO (EVT_A  + 0x1) // first''" "[]"
      "''EVT_FOO''" "''(EVT_A  + 0x1)''"] 1
  have 4: "\<exists>rest. is_define_line ''  #define EVT_FOO (EVT_A  + 0x1) // first'' ''EVT_FOO'' rest
         \<and> (''EVT_FOO'' = ''THIRD_PARTY_EVENT_ID_MIN'' \<or> prefix ''EVT_'' ''EVT_FOO''
             \<or> prefix ''CDU_EVT_OFFSET_'' ''EVT_FOO'')
         \<and> ''(EVT_A  + 0x1)'' = strip (re_sub_comment rest)"
    by blast
  from define_line_selection [of "''#define OTHER_NAME 0x1''" "[]"] 2
  have 5: "\<not> (\<exists>name rest. is_define_line ''#define OTHER_NAME 0x1'' name rest
         \<and> (name = ''THIRD_PARTY_EVENT_ID_MIN'' \<or> prefix ''EVT_'' name
             \<or> prefix ''CDU_EVT_OFFSET_'' name))"
    by blast
  have 6: "scan_line ''#define THIRD_PARTY_EVENT_ID_MIN 0x00011000'' []
       = [(''THIRD_PARTY_EVENT_ID_MIN'', ''0x00011000'')]"
    "scan_line ''#define CDU_EVT_OFFSET_L 0'' [] = [(''CDU_EVT_OFFSET_L'', ''0'')]"
    "scan_line ''#define THIRD_PARTY_EVENT_ID_MAX 0x0001FFFF'' [] = []"
    "scan_line ''#define MY_EVT_A 1'' [] = []"
    "scan_line ''#define CDU_EVT_L 1'' [] = []"
    "scan_line ''#define EVT_A'' [] = []"
    "scan_line ''# define EVT_A 1'' [] = []"
    by code_simp+
  have s: "strip ''#define EVT_A 1'' = ''#define'' @ '' '' @ ''EVT_A'' @ '' '' @ ''1''"
    "\<forall>c\<in>set '' ''. isspace c" "\<forall>c\<in>set ''EVT_A''. \<not> isspace c" "\<not> isspace (hd ''1'')"
    by code_simp+
  have 7: "is_directive_line ''#define EVT_A 1'' ''EVT_A'' ''1''"
    unfolding is_directive_line_def
    by (rule exI [of _ "'' ''"], rule exI [of _ "'' ''"]) (use s in simp)
  with define_line_selection [of "''#define EVT_A 1''" _ "''EVT_A''" _ "''1''"]
  have 8: "is_define_line ''#define EVT_A 1'' ''EVT_A'' ''1''"
    by blast
  from 1 2 3 4 5 6 7 8 show ?thesis by simp
qed

text \<open>
  Claim C5 as stated fails. The test of line 68 looks at the first characters of the
  trimmed line, not at its first token: the line \<^verbatim>\<open>#defineX EVT_A 1\<close> gives the record
  \<^verbatim>\<open>EVT_A = 1\<close>, and its first token is not the directive \<^verbatim>\<open>#define\<close>.
\<close>

theorem longer_first_token_counterexample:
  "scan_line ''#defineX EVT_A 1'' [] = [(''EVT_A'', ''1'')]
   \<and> extract_defines_from_header ''#defineX EVT_A 1'' = [(''EVT_A'', ''1'')]
   \<and> hd (split_ws 2 (strip ''#defineX EVT_A 1'')) = ''#defineX''
   \<and> \<not> (\<exists>name rest. is_directive_line ''#defineX EVT_A 1'' name rest)"
proof -
  have a: "scan_line ''#defineX EVT_A 1'' [] = [(''EVT_A'', ''1'')]"
    "extract_defines_from_header ''#defineX EVT_A 1'' = [(''EVT_A'', ''1'')]"
    "hd (split_ws 2 (strip ''#defineX EVT_A 1'')) = ''#defineX''"
    by code_simp+
  have s: "strip ''#defineX EVT_A 1'' = ''#define'' @ ''X EVT_A 1''" "\<not> isspace CHR ''X''"
    by code_simp+
  have "\<not> (\<exists>name rest. is_directive_line ''#defineX EVT_A 1'' name rest)"
  proof
    assume "\<exists>name rest. is_directive_line ''#defineX EVT_A 1'' name rest"
    then obtain name rest ws1 ws2 where
      d: "strip ''#defineX EVT_A 1'' = ''#define'' @ ws1 @ name @ ws2 @ rest"
      and w: "ws1 \<noteq> []" "\<forall>c\<in>set ws1. isspace c"
      unfolding is_directive_line_def by blast
    from d have "''X EVT_A 1'' = ws1 @ name @ ws2 @ rest"
      unfolding s(1) by (rule same_append_eq [THEN iffD1])
    with w(1) have "hd ws1 = CHR ''X''"
      by (cases ws1) simp_all
    with w s(2) show False
      by (cases ws1) auto
  qed
  with a show ?thesis by blast
qed

section \<open>Comments\<close>

text \<open>
  Claim C8. For a line of the file that gives a record, the expression stored is the
  remainder of the line up to its first \<^verbatim>\<open>//\<close>, trimmed: the remainder is that text
  alone or that text followed by \<^verbatim>\<open>//\<close> and more, the expression holds no \<^verbatim>\<open>//\<close>, and
  trimming it again changes nothing. The line \<^verbatim>\<open>#define EVT_X 0x100 // foo\<close> gives the
  record of \<^verbatim>\<open>EVT_X\<close> with the expression \<^verbatim>\<open>0x100\<close>.
\<close>

theorem trailing_comment_removed:
  assumes "line \<in> set (file_lines (universal_newlines content))"
    and "scan_line line defines = defines @ [(name, expr)]"
  shows "(\<exists>rest. is_define_line line name rest
           \<and> expr = strip (before_comment rest)
           \<and> (rest = before_comment rest \<or> (\<exists>v. rest = before_comment rest @ ''//'' @ v)))
     \<and> \<not> sublist ''//'' expr
     \<and> strip expr = expr
     \<and> extract_defines_from_header ''#define EVT_X 0x100 // foo'' = [(''EVT_X'', ''0x100'')]"
proof -
  from scan_line_append [OF assms(2)] obtain rest where
    d: "is_define_line line name rest" and e: "expr = strip (re_sub_comment rest)"
    by blast
  from d obtain kw ws1 ws2 where "strip line = kw @ ws1 @ name @ ws2 @ rest"
    unfolding is_define_line_def by blast
  then have "set rest \<subseteq> set (strip line)"
    by (metis Un_upper2 set_append subset_trans)
  moreover have "LF \<notin> set (strip line)"
    by (rule strip_no_lf [OF file_lines_no_inner_lf [OF assms(1)]])
  ultimately have "LF \<notin> set rest"
    by blast
  with e have b: "expr = strip (before_comment rest)"
    by (simp add: re_sub_comment_no_lf)
  have "\<not> sublist ''//'' expr"
  proof
    assume "sublist ''//'' expr"
    then have "sublist ''//'' (strip (before_comment rest))"
      unfolding b .
    from this strip_sublist [of "before_comment rest"]
    have "sublist ''//'' (before_comment rest)"
      by (rule sublist_order.order.trans)
    with before_comment_clean show False ..
  qed
  moreover have "strip expr = expr"
    unfolding b by (rule strip_idem)
  moreover have "extract_defines_from_header ''#define EVT_X 0x100 // foo'' = [(''EVT_X'', ''0x100'')]"
    by code_simp
  ultimately show ?thesis
    using d b before_comment_split [of rest] by blast
qed

theorem trailing_comment_removed_witness:
  "''#define EVT_X 0x100 // foo''
     \<in> set (file_lines (universal_newlines (''int a; // b'' @ [CR, LF] @ ''#define EVT_X 0x100 // foo'')))
   \<and> scan_line ''#define EVT_X 0x100 // foo'' [] = [(''EVT_X'', ''0x100'')]
   \<and> (\<exists>rest. is_define_line ''#define EVT_X 0x100 // foo'' ''EVT_X'' rest
         \<and> ''0x100'' = strip (before_comment rest))
   \<and> \<not> sublist ''//'' ''0x100''"
proof -
  let ?content = "''int a; // b'' @ [CR, LF] @ ''#define EVT_X 0x100 // foo''"
  have l: "file_lines (universal_newlines ?content)
      = [''int a; // b'' @ [LF], ''#define EVT_X 0x100 // foo'']"
    by code_simp
  then have m: "''#define EVT_X 0x100 // foo'' \<in> set (file_lines (universal_newlines ?content))"
    by simp
  have s: "scan_line ''#define EVT_X 0x100 // foo'' [] = [] @ [(''EVT_X'', ''0x100'')]"
    by code_simp
  from trailing_comment_removed [OF m s] m s show ?thesis
    by auto
qed

end
